theory Spec2Isabelle
  imports Complex_Main
begin

section \<open>Bytes\<close>

text \<open>
  The C sources work on \<open>char\<close> and \<open>uint8_t\<close> buffers. A byte is a \<^typ>\<open>char\<close>, a
  buffer is a \<^typ>\<open>char list\<close>.
\<close>

abbreviation NUL :: char where "NUL \<equiv> CHR 0x00"
abbreviation TAB :: char where "TAB \<equiv> CHR 0x09"
abbreviation LF :: char where "LF \<equiv> CHR 0x0A"
abbreviation CR :: char where "CR \<equiv> CHR 0x0D"
abbreviation SP :: char where "SP \<equiv> CHR 0x20"

text \<open>
  \<open>memcpy(mem + off, bytes, length bytes)\<close> on a buffer \<open>mem\<close>; every call in the
  sources writes inside the buffer (or at its end, after a successful \<open>realloc\<close>).
\<close>

definition mem_write :: "char list \<Rightarrow> nat \<Rightarrow> char list \<Rightarrow> char list" where
  "mem_write mem off bytes = take off mem @ bytes @ drop (off + length bytes) mem"

text \<open>\<open>memchr(xs, c, length xs)\<close>: the offset of the first \<open>c\<close>, or \<open>None\<close> for \<open>NULL\<close>.\<close>

definition memchr :: "char list \<Rightarrow> char \<Rightarrow> nat option" where
  "memchr xs c = (if c \<in> set xs then Some (length (takeWhile (\<lambda>x. x \<noteq> c) xs)) else None)"

section \<open>Line buffer (conduit\_line\_buffer.c)\<close>

text \<open>
  \<open>struct conduit_line_buffer\<close>. The sizes are \<open>size_t\<close>; they are bounded by the size of
  an allocated object, so they are modelled as \<^typ>\<open>nat\<close>. Freshly allocated bytes have
  no defined content in C and are never read before they are written; the model fills
  them with \<open>NUL\<close>.
\<close>

record line_buffer =
  data :: "char list"
  capacity :: nat
  read_pos :: nat
  write_pos :: nat

definition conduit_line_buffer_create :: "nat \<Rightarrow> line_buffer" where
  "conduit_line_buffer_create initial_capacity =
     (let initial_capacity = (if initial_capacity < 256 then 256 else initial_capacity)
      in \<lparr>data = replicate initial_capacity NUL, capacity = initial_capacity,
          read_pos = 0, write_pos = 0\<rparr>)"

definition maybe_compact :: "line_buffer \<Rightarrow> line_buffer" where
  "maybe_compact buf =
     (if read_pos buf > capacity buf div 2 \<and> read_pos buf > 0 then
        (let pending = write_pos buf - read_pos buf;
             data' = (if pending > 0
                      then mem_write (data buf) 0 (take pending (drop (read_pos buf) (data buf)))
                      else data buf)
         in buf\<lparr>data := data', read_pos := 0, write_pos := pending\<rparr>)
      else buf)"

text \<open>
  \<open>conduit_line_buffer_append\<close>. The flag \<open>realloc_ok\<close> says whether \<open>realloc\<close> succeeds if
  it is called. The result is the return value and the buffer after the call.
\<close>

definition conduit_line_buffer_append ::
  "line_buffer \<Rightarrow> char list \<Rightarrow> bool \<Rightarrow> int \<times> line_buffer" where
  "conduit_line_buffer_append buf bytes realloc_ok =
     (let length' = length bytes in
      if length' = 0 then (0, buf)
      else
        let needed = write_pos buf + length' in
        if needed > capacity buf then
          (let buf1 = maybe_compact buf;
               needed = write_pos buf1 + length' in
           if needed > capacity buf1 then
             (let new_cap = capacity buf1 * 2;
                  new_cap = (if new_cap < needed then needed else new_cap) in
              if \<not> realloc_ok then (- 1, buf1)
              else
                let buf2 = buf1\<lparr>data := data buf1 @ replicate (new_cap - capacity buf1) NUL,
                                capacity := new_cap\<rparr>
                in (0, buf2\<lparr>data := mem_write (data buf2) (write_pos buf2) bytes,
                            write_pos := write_pos buf2 + length'\<rparr>))
           else (0, buf1\<lparr>data := mem_write (data buf1) (write_pos buf1) bytes,
                         write_pos := write_pos buf1 + length'\<rparr>))
        else (0, buf\<lparr>data := mem_write (data buf) (write_pos buf) bytes,
                     write_pos := write_pos buf + length'\<rparr>))"

text \<open>
  \<open>conduit_line_buffer_next_line\<close>. \<open>line_out\<close> is the content of the caller's buffer and
  \<open>line_len\<close> the value behind the caller's pointer before the call; the result is the
  return value, the line buffer, the caller's buffer and the caller's length after the
  call.
\<close>

definition conduit_line_buffer_next_line ::
  "line_buffer \<Rightarrow> char list \<Rightarrow> nat \<Rightarrow> nat \<Rightarrow> int \<times> line_buffer \<times> char list \<times> nat" where
  "conduit_line_buffer_next_line buf line_out line_out_capacity line_len =
     (let pending = write_pos buf - read_pos buf in
      if pending = 0 then (0, buf, line_out, line_len)
      else
        let start = take pending (drop (read_pos buf) (data buf));
            newline_lf = memchr start LF;
            newline_cr = memchr start CR;
            newline = (case newline_lf of
                         Some l \<Rightarrow> (case newline_cr of
                                      Some c \<Rightarrow> Some (if l < c then l else c)
                                    | None \<Rightarrow> Some l)
                       | None \<Rightarrow> newline_cr)
        in case newline of
             None \<Rightarrow> (0, buf, line_out, line_len)
           | Some line_bytes \<Rightarrow>
               if line_bytes \<ge> line_out_capacity then (0, buf, line_out, line_len)
               else
                 let line_out' = mem_write line_out 0 (take line_bytes start @ [NUL]);
                     consume = line_bytes + 1;
                     consume =
                       (if data buf ! (read_pos buf + line_bytes) = CR then
                          (let next_pos = read_pos buf + consume in
                           if next_pos < write_pos buf \<and> data buf ! next_pos = LF
                           then consume + 1 else consume)
                        else consume)
                 in (1, maybe_compact (buf\<lparr>read_pos := read_pos buf + consume\<rparr>),
                     line_out', line_bytes))"

definition conduit_line_buffer_pending :: "line_buffer \<Rightarrow> nat" where
  "conduit_line_buffer_pending buf = write_pos buf - read_pos buf"

text \<open>The pending bytes \<open>[read_pos, write_pos)\<close> of a buffer.\<close>

definition pending_bytes :: "line_buffer \<Rightarrow> char list" where
  "pending_bytes buf = take (write_pos buf - read_pos buf) (drop (read_pos buf) (data buf))"

text \<open>The invariant of the struct: \<open>read_pos \<le> write_pos \<le> capacity\<close>, the size of the allocation.\<close>

definition lb_inv :: "line_buffer \<Rightarrow> bool" where
  "lb_inv buf = (read_pos buf \<le> write_pos buf \<and> write_pos buf \<le> capacity buf \<and>
                 length (data buf) = capacity buf)"

text \<open>
  A client of the line buffer: a sequence of calls. \<open>Append bytes ok\<close> appends (with the
  outcome of a possible \<open>realloc\<close>), \<open>Next_line out cap\<close> asks for a line into a caller
  buffer \<open>out\<close> of \<open>cap\<close> bytes.
\<close>

datatype lb_call = Append "char list" bool | Next_line "char list" nat

text \<open>The lines returned by the successful \<open>next_line\<close> calls of a sequence, in order.\<close>

fun lb_lines :: "lb_call list \<Rightarrow> line_buffer \<Rightarrow> char list list" where
  "lb_lines [] buf = []"
| "lb_lines (Append bytes ok # cs) buf =
     lb_lines cs (snd (conduit_line_buffer_append buf bytes ok))"
| "lb_lines (Next_line out cap # cs) buf =
     (case conduit_line_buffer_next_line buf out cap 0 of
        (ret, buf', out', len') \<Rightarrow>
          (if ret = 1 then [take len' out'] else []) @ lb_lines cs buf')"

text \<open>
  The width of the delimiter that ends the first line of \<open>bs\<close>, whose line has \<open>n\<close> bytes:
  2 for a carriage return directly followed by a line feed, 1 otherwise.
\<close>

definition delimiter_width :: "char list \<Rightarrow> nat \<Rightarrow> nat" where
  "delimiter_width bs n = (if bs ! n = CR \<and> n + 1 < length bs \<and> bs ! (n + 1) = LF then 2 else 1)"

text \<open>
  The byte accounts of a sequence of calls: \<open>B\<close>, the bytes of the appends that returned 0,
  and \<open>C\<close>, the bytes consumed by the \<open>next_line\<close> calls that returned 1 (the line and its
  delimiter, read off the pending bytes before the call).
\<close>

fun lb_run :: "lb_call list \<Rightarrow> line_buffer \<times> nat \<times> nat \<Rightarrow> line_buffer \<times> nat \<times> nat" where
  "lb_run [] s = s"
| "lb_run (Append bytes ok # cs) (buf, B, C) =
     (case conduit_line_buffer_append buf bytes ok of
        (ret, buf') \<Rightarrow> lb_run cs (buf', if ret = 0 then B + length bytes else B, C))"
| "lb_run (Next_line out cap # cs) (buf, B, C) =
     (case conduit_line_buffer_next_line buf out cap 0 of
        (ret, buf', out', len') \<Rightarrow>
          lb_run cs (buf', B,
                     if ret = 1 then C + len' + delimiter_width (pending_bytes buf) len' else C))"

text \<open>
  Splitting a complete byte sequence into its terminated lines: a line ends at the first
  \<open>\n\<close> or \<open>\r\<close>, and \<open>\r\n\<close> is one delimiter. Bytes after the last delimiter are not a
  line yet.
\<close>

fun split_lines_acc :: "char list \<Rightarrow> char list \<Rightarrow> char list list" where
  "split_lines_acc acc [] = []"
| "split_lines_acc acc (c # cs) =
     (if c = LF then rev acc # split_lines_acc [] cs
      else if c = CR then
        (case cs of
           [] \<Rightarrow> [rev acc]
         | d # ds \<Rightarrow> if d = LF then rev acc # split_lines_acc [] ds
                     else rev acc # split_lines_acc [] cs)
      else split_lines_acc (c # acc) cs)"

definition split_lines :: "char list \<Rightarrow> char list list" where
  "split_lines bs = split_lines_acc [] bs"

section \<open>SSE parser (conduit\_sse\_parser.c)\<close>

text \<open>
  \<open>dyn_str_t\<close>: \<open>ds_data\<close> is the allocated block (\<open>None\<close> for \<open>NULL\<close>), as the list of
  its bytes that have been written so far, \<open>ds_len\<close> and \<open>ds_capacity\<close> are the two size
  fields. \<open>dyn_str_clear\<close> only resets the length: the bytes stay in the block.
\<close>

record dyn_str =
  ds_data :: "char list option"
  ds_len :: nat
  ds_capacity :: nat

definition dyn_str_init :: dyn_str where
  "dyn_str_init = \<lparr>ds_data = None, ds_len = 0, ds_capacity = 0\<rparr>"

definition dyn_str_clear :: "dyn_str \<Rightarrow> dyn_str" where
  "dyn_str_clear s = s\<lparr>ds_len := 0\<rparr>"

text \<open>
  \<open>dyn_str_append\<close>. The flag \<open>realloc_ok\<close> says whether \<open>realloc\<close> succeeds if it is called;
  when it fails the function returns \<open>false\<close> and leaves the string as it was. Otherwise the
  bytes and the terminating \<open>NUL\<close> are written at offset \<open>ds_len\<close>. The result is the
  return value and the string after the call.
\<close>

definition dyn_str_append :: "dyn_str \<Rightarrow> char list \<Rightarrow> bool \<Rightarrow> bool \<times> dyn_str" where
  "dyn_str_append s bytes realloc_ok =
     (if length bytes = 0 then (True, s)
      else
        let needed = ds_len s + length bytes + 1;
            grow = (needed > ds_capacity s);
            new_cap = (if ds_capacity s \<noteq> 0 then ds_capacity s * 2 else 128);
            new_cap = (if new_cap < needed then needed else new_cap)
        in if grow \<and> \<not> realloc_ok then (False, s)
           else
             let mem = (case ds_data s of None \<Rightarrow> [] | Some m \<Rightarrow> m)
             in (True,
                 s\<lparr>ds_data := Some (mem_write mem (ds_len s) (bytes @ [NUL])),
                   ds_len := ds_len s + length bytes,
                   ds_capacity := (if grow then new_cap else ds_capacity s)\<rparr>))"

definition dyn_str_append_char :: "dyn_str \<Rightarrow> char \<Rightarrow> bool \<Rightarrow> bool \<times> dyn_str" where
  "dyn_str_append_char s c realloc_ok = dyn_str_append s [c] realloc_ok"

text \<open>
  \<open>dyn_str_cstr\<close> returns a pointer to the block (or to \<open>""\<close>); what the receiver of a
  \<open>const char *\<close> reads is the C string there: the bytes before the first \<open>NUL\<close>.
\<close>

definition dyn_str_cstr :: "dyn_str \<Rightarrow> char list" where
  "dyn_str_cstr s = (case ds_data s of None \<Rightarrow> [] | Some m \<Rightarrow> takeWhile (\<lambda>c. c \<noteq> NUL) m)"

text \<open>\<open>conduit_sse_event_t\<close>: each pointer is \<open>None\<close> for \<open>NULL\<close>, or the C string it points to.\<close>

record sse_event =
  ev_id :: "char list option"
  ev_event :: "char list option"
  ev_data :: "char list"
  ev_retry :: int

record sse_parser =
  current_id :: dyn_str
  current_event :: dyn_str
  current_data :: dyn_str
  current_retry :: int
  has_id :: bool
  has_event :: bool
  has_data :: bool
  last_event_id :: dyn_str
  reconnection_time :: int

definition conduit_sse_parser_create :: sse_parser where
  "conduit_sse_parser_create =
     \<lparr>current_id = dyn_str_init, current_event = dyn_str_init, current_data = dyn_str_init,
      current_retry = - 1, has_id = False, has_event = False, has_data = False,
      last_event_id = dyn_str_init, reconnection_time = 3000\<rparr>"

definition reset_current_event :: "sse_parser \<Rightarrow> sse_parser" where
  "reset_current_event p =
     p\<lparr>current_id := dyn_str_clear (current_id p),
       current_event := dyn_str_clear (current_event p),
       current_data := dyn_str_clear (current_data p),
       current_retry := - 1,
       has_id := False, has_event := False, has_data := False\<rparr>"

text \<open>
  The callback is modelled by its calls: every function returns the parser after the call
  and the list of events it passed to the (non-\<open>NULL\<close>) callback, in order.
\<close>

definition dispatch_if_needed :: "sse_parser \<Rightarrow> sse_parser \<times> sse_event list" where
  "dispatch_if_needed p =
     (let is_data_empty = (ds_len (current_data p) = 0);
          is_retry_only = (is_data_empty \<and> \<not> has_id p \<and> \<not> has_event p \<and> \<not> has_data p)
      in if is_retry_only then (reset_current_event p, [])
         else
           let event = \<lparr>ev_id = (if has_id p then Some (dyn_str_cstr (current_id p)) else None),
                        ev_event = (if has_event p then Some (dyn_str_cstr (current_event p))
                                    else None),
                        ev_data = dyn_str_cstr (current_data p),
                        ev_retry = current_retry p\<rparr>
           in (reset_current_event p, [event]))"

text \<open>The first steps of \<open>conduit_sse_ingest_line\<close>: trailing \<open>\r\<close> bytes and a leading BOM go.\<close>

definition sse_strip :: "char list \<Rightarrow> char list" where
  "sse_strip line =
     (let line = rev (dropWhile (\<lambda>c. c = CR) (rev line))
      in if length line \<ge> 3 \<and> line ! 0 = CHR 0xEF \<and> line ! 1 = CHR 0xBB \<and> line ! 2 = CHR 0xBF
         then drop 3 line else line)"

text \<open>The split at the first colon, with one leading space of the value skipped.\<close>

definition sse_split :: "char list \<Rightarrow> char list \<times> char list" where
  "sse_split line =
     (case memchr line (CHR '':'') of
        Some field_len \<Rightarrow>
          (let val = drop (field_len + 1) line
           in (take field_len line, if length val > 0 \<and> val ! 0 = SP then drop 1 val else val))
      | None \<Rightarrow> (line, []))"

text \<open>
  \<open>int\<close> is 32 bits wide. Signed overflow is undefined in C; the model takes the usual
  two's complement result.
\<close>

definition wrap32 :: "int \<Rightarrow> int" where
  "wrap32 x = (x + 2147483648) mod 4294967296 - 2147483648"

definition is_digit :: "char \<Rightarrow> bool" where
  "is_digit c = (48 \<le> (of_char c :: nat) \<and> (of_char c :: nat) \<le> 57)"

text \<open>The loop over the value of a \<open>retry\<close> field, entered with \<open>valid\<close> true: the final \<open>(valid, ms)\<close>.\<close>

fun retry_loop :: "char list \<Rightarrow> int \<Rightarrow> bool \<times> int" where
  "retry_loop [] ms = (True, ms)"
| "retry_loop (c # cs) ms =
     (if is_digit c then
        (if ms > 214748364 then (False, ms)
         else retry_loop cs (wrap32 (ms * 10 + (of_char c - 48))))
      else (False, ms))"

text \<open>
  \<open>conduit_sse_ingest_line\<close>. A line makes at most two calls of \<open>dyn_str_append\<close>; \<open>ok1\<close>
  and \<open>ok2\<close> say whether \<open>realloc\<close> succeeds in the first and in the second of them. The C
  code ignores the result of \<open>dyn_str_append\<close>, and so does the model.
\<close>

definition conduit_sse_ingest_line ::
  "sse_parser \<Rightarrow> char list \<Rightarrow> bool \<Rightarrow> bool \<Rightarrow> sse_parser \<times> sse_event list" where
  "conduit_sse_ingest_line parser line0 ok1 ok2 =
     (let line = sse_strip line0 in
      if length line = 0 then dispatch_if_needed parser
      else if line ! 0 = CHR '':'' then (parser, [])
      else
        let (field, val) = sse_split line in
        if field = ''event'' then
          (parser\<lparr>current_event :=
                    snd (dyn_str_append (dyn_str_clear (current_event parser)) val ok1),
                  has_event := True\<rparr>, [])
        else if field = ''data'' then
          (let d = (if ds_len (current_data parser) > 0
                    then snd (dyn_str_append (snd (dyn_str_append_char (current_data parser) LF ok1))
                                val ok2)
                    else snd (dyn_str_append (current_data parser) val ok1))
           in (parser\<lparr>current_data := d, has_data := True\<rparr>, []))
        else if field = ''id'' then
          (let has_null = (NUL \<in> set val) in
           if \<not> has_null then
             (parser\<lparr>current_id :=
                       snd (dyn_str_append (dyn_str_clear (current_id parser)) val ok1),
                     has_id := True,
                     last_event_id :=
                       snd (dyn_str_append (dyn_str_clear (last_event_id parser)) val ok2)\<rparr>,
              [])
           else (parser, []))
        else if field = ''retry'' then
          (let (valid, ms) = (if length val > 0 then retry_loop val 0 else (False, 0)) in
           if valid \<and> ms > 0 then (parser\<lparr>reconnection_time := ms, current_retry := ms\<rparr>, [])
           else (parser, []))
        else (parser, []))"

definition conduit_sse_finish :: "sse_parser \<Rightarrow> sse_parser \<times> sse_event list" where
  "conduit_sse_finish parser =
     (if ds_len (current_data parser) > 0 \<or> has_id parser \<or> has_event parser
      then dispatch_if_needed parser else (parser, []))"

text \<open>
  A sequence of calls on a parser, and the events it dispatches, in order. \<open>Ingest_line l
  ok1 ok2\<close> is a call of \<open>conduit_sse_ingest_line\<close> with the outcomes of its allocations.
\<close>

datatype sse_call = Ingest_line "char list" bool bool | Finish

fun sse_run :: "sse_call list \<Rightarrow> sse_parser \<Rightarrow> sse_parser \<times> sse_event list" where
  "sse_run [] p = (p, [])"
| "sse_run (Ingest_line l ok1 ok2 # cs) p =
     (case conduit_sse_ingest_line p l ok1 ok2 of
        (p', es) \<Rightarrow> (case sse_run cs p' of (p'', es') \<Rightarrow> (p'', es @ es')))"
| "sse_run (Finish # cs) p =
     (case conduit_sse_finish p of
        (p', es) \<Rightarrow> (case sse_run cs p' of (p'', es') \<Rightarrow> (p'', es @ es')))"



text \<open>A line that is a \<open>retry\<close> field.\<close>

fun retry_call :: "sse_call \<Rightarrow> bool" where
  "retry_call (Ingest_line l ok1 ok2) = (fst (sse_split (sse_strip l)) = ''retry'')"
| "retry_call Finish = False"



section \<open>Vector operations (conduit\_vector\_ops.c)\<close>

text \<open>
  The functions compute in \<open>float\<close>. The type and its arithmetic are a parameter of the
  model: \<^typ>\<open>'f\<close> with the constant \<open>0.0f\<close> and the operations the code uses, \<open>+\<close>, \<open>*\<close>,
  \<open>/\<close>, \<open>sqrtf\<close>, \<open>>\<close> and \<open>==\<close>. The functions are the scalar code (the branch without
  \<open>CONDUIT_HAS_ACCELERATE\<close>); an array is the list of its elements, read with \<open>!\<close>.
\<close>

record 'f float_ops =
  fzero :: 'f
  fadd :: "'f \<Rightarrow> 'f \<Rightarrow> 'f"
  fmul :: "'f \<Rightarrow> 'f \<Rightarrow> 'f"
  fdiv :: "'f \<Rightarrow> 'f \<Rightarrow> 'f"
  fsqrt :: "'f \<Rightarrow> 'f"
  fgt :: "'f \<Rightarrow> 'f \<Rightarrow> bool"
  feq :: "'f \<Rightarrow> 'f \<Rightarrow> bool"

definition conduit_cosine_similarity :: "'f float_ops \<Rightarrow> 'f list \<Rightarrow> 'f list \<Rightarrow> nat \<Rightarrow> 'f" where
  "conduit_cosine_similarity ops a b count =
     (if count = 0 then fzero ops
      else
        let (dot, normA, normB) =
              fold (\<lambda>i (dot, normA, normB).
                      (fadd ops dot (fmul ops (a ! i) (b ! i)),
                       fadd ops normA (fmul ops (a ! i) (a ! i)),
                       fadd ops normB (fmul ops (b ! i) (b ! i))))
                   [0..<count] (fzero ops, fzero ops, fzero ops);
            denom = fmul ops (fsqrt ops normA) (fsqrt ops normB)
        in if fgt ops denom (fzero ops) then fdiv ops dot denom else fzero ops)"

text \<open>\<open>conduit_cosine_similarity_batch\<close>: the array \<open>results\<close> after the call.\<close>

definition conduit_cosine_similarity_batch ::
  "'f float_ops \<Rightarrow> 'f list \<Rightarrow> 'f list \<Rightarrow> nat \<Rightarrow> nat \<Rightarrow> 'f list \<Rightarrow> 'f list" where
  "conduit_cosine_similarity_batch ops query vectors dimensions count results =
     (if dimensions = 0 \<or> count = 0 then results
      else
        let query_norm_sq =
              fold (\<lambda>i s. fadd ops s (fmul ops (query ! i) (query ! i))) [0..<dimensions]
                (fzero ops);
            query_norm = fsqrt ops query_norm_sq
        in if feq ops query_norm (fzero ops)
           then fold (\<lambda>i res. res[i := fzero ops]) [0..<count] results
           else
             fold (\<lambda>v res.
                     let vec = drop (v * dimensions) vectors;
                         (dot, vec_norm_sq) =
                           fold (\<lambda>i (dot, vec_norm_sq).
                                   (fadd ops dot (fmul ops (query ! i) (vec ! i)),
                                    fadd ops vec_norm_sq (fmul ops (vec ! i) (vec ! i))))
                                [0..<dimensions] (fzero ops, fzero ops);
                         vec_norm = fsqrt ops vec_norm_sq
                     in res[v := (if fgt ops vec_norm (fzero ops)
                                  then fdiv ops dot (fmul ops query_norm vec_norm)
                                  else fzero ops)])
                  [0..<count] results)"

text \<open>
  The facts of IEEE 754 arithmetic that the analysis uses, for a value \<open>nan\<close> (a NaN) and
  a value \<open>one\<close> (1.0): an operation with a NaN operand gives the NaN, a comparison with a
  NaN operand is false, and \<open>0 + 1\<close>, \<open>1 * 1\<close> and \<open>sqrtf 1\<close> are exactly 1, which is
  greater than 0.
\<close>

definition ieee_nan_one :: "'f float_ops \<Rightarrow> 'f \<Rightarrow> 'f \<Rightarrow> bool" where
  "ieee_nan_one ops nan one =
     (nan \<noteq> fzero ops \<and>
      fadd ops (fzero ops) nan = nan \<and> fmul ops nan nan = nan \<and> fmul ops nan one = nan \<and>
      fdiv ops nan nan = nan \<and> fsqrt ops nan = nan \<and>
      \<not> fgt ops nan (fzero ops) \<and> \<not> feq ops nan (fzero ops) \<and>
      fadd ops (fzero ops) one = one \<and> fmul ops one one = one \<and> fsqrt ops one = one \<and>
      fgt ops one (fzero ops))"

text \<open>
  An arithmetic with these facts: the reals with one more value \<open>None\<close> for NaN, computed
  exactly; a division by 0 and the root of a negative number give NaN.
\<close>

definition real_nan_ops :: "real option float_ops" where
  "real_nan_ops =
     \<lparr>fzero = Some 0,
      fadd = (\<lambda>a b. case (a, b) of (Some x, Some y) \<Rightarrow> Some (x + y) | _ \<Rightarrow> None),
      fmul = (\<lambda>a b. case (a, b) of (Some x, Some y) \<Rightarrow> Some (x * y) | _ \<Rightarrow> None),
      fdiv = (\<lambda>a b. case (a, b) of
                       (Some x, Some y) \<Rightarrow> if y = 0 then None else Some (x / y)
                     | _ \<Rightarrow> None),
      fsqrt = (\<lambda>a. case a of Some x \<Rightarrow> if x < 0 then None else Some (sqrt x) | None \<Rightarrow> None),
      fgt = (\<lambda>a b. case (a, b) of (Some x, Some y) \<Rightarrow> x > y | _ \<Rightarrow> False),
      feq = (\<lambda>a b. case (a, b) of (Some x, Some y) \<Rightarrow> x = y | _ \<Rightarrow> False)\<rparr>"

section \<open>JSON text\<close>

definition is_ws :: "char \<Rightarrow> bool" where
  "is_ws c = (c = SP \<or> c = TAB \<or> c = LF \<or> c = CR)"

text \<open>\<open>is_hex_digit\<close> of conduit\_json\_repair.c.\<close>

definition is_hex_digit :: "char \<Rightarrow> bool" where
  "is_hex_digit c =
     (let n = (of_char c :: nat)
      in (48 \<le> n \<and> n \<le> 57) \<or> (97 \<le> n \<and> n \<le> 102) \<or> (65 \<le> n \<and> n \<le> 70))"

text \<open>
  Syntactically valid JSON, after RFC 8259, as a checker that reads the text byte by byte.
  It is the yardstick for the outputs of the repair and of the completer, not a model of
  code of the repository. The checker is in one of the modes below and keeps the stack of
  the containers that are open.
\<close>

datatype jcontainer = JObj | JArr

datatype jmode =
    JValue \<comment> \<open>a value starts here\<close>
  | JValueOrEnd \<comment> \<open>after \<open>[\<close>: a value or \<open>]\<close>\<close>
  | JKeyOrEnd \<comment> \<open>after \<open>{\<close>: a key or \<open>}\<close>\<close>
  | JKey \<comment> \<open>after a comma in an object: a key\<close>
  | JColon \<comment> \<open>after a key\<close>
  | JAfter \<comment> \<open>after a value\<close>
  | JStr bool \<comment> \<open>in a string; the flag marks a key\<close>
  | JEsc bool \<comment> \<open>after a backslash in a string\<close>
  | JHex nat bool \<comment> \<open>in \<open>\uXXXX\<close>, with the number of hex digits to come\<close>
  | JLit "char list" \<comment> \<open>in \<open>true\<close>, \<open>false\<close> or \<open>null\<close>, with the bytes to come\<close>
  | JMinus | JZero | JInt | JDot | JFrac | JExp | JExpSign | JExpDigits

type_synonym jstate = "jmode \<times> jcontainer list"

definition json_after_value :: "char \<Rightarrow> jcontainer list \<Rightarrow> jstate option" where
  "json_after_value c st =
     (if is_ws c then Some (JAfter, st)
      else if c = CHR '','' then
        (case st of [] \<Rightarrow> None | JArr # _ \<Rightarrow> Some (JValue, st) | JObj # _ \<Rightarrow> Some (JKey, st))
      else if c = CHR '']'' then
        (case st of JArr # st' \<Rightarrow> Some (JAfter, st') | _ \<Rightarrow> None)
      else if c = CHR ''}'' then
        (case st of JObj # st' \<Rightarrow> Some (JAfter, st') | _ \<Rightarrow> None)
      else None)"

definition json_value_start :: "char \<Rightarrow> jcontainer list \<Rightarrow> jstate option" where
  "json_value_start c st =
     (if c = CHR ''{'' then Some (JKeyOrEnd, JObj # st)
      else if c = CHR ''['' then Some (JValueOrEnd, JArr # st)
      else if c = CHR 0x22 then Some (JStr False, st)
      else if c = CHR ''t'' then Some (JLit ''rue'', st)
      else if c = CHR ''f'' then Some (JLit ''alse'', st)
      else if c = CHR ''n'' then Some (JLit ''ull'', st)
      else if c = CHR ''-'' then Some (JMinus, st)
      else if c = CHR ''0'' then Some (JZero, st)
      else if is_digit c then Some (JInt, st)
      else None)"

fun json_step :: "jstate \<Rightarrow> char \<Rightarrow> jstate option" where
  "json_step (JValue, st) c = (if is_ws c then Some (JValue, st) else json_value_start c st)"
| "json_step (JValueOrEnd, st) c =
     (if is_ws c then Some (JValueOrEnd, st)
      else if c = CHR '']'' then (case st of JArr # st' \<Rightarrow> Some (JAfter, st') | _ \<Rightarrow> None)
      else json_value_start c st)"
| "json_step (JKeyOrEnd, st) c =
     (if is_ws c then Some (JKeyOrEnd, st)
      else if c = CHR ''}'' then (case st of JObj # st' \<Rightarrow> Some (JAfter, st') | _ \<Rightarrow> None)
      else if c = CHR 0x22 then Some (JStr True, st)
      else None)"
| "json_step (JKey, st) c =
     (if is_ws c then Some (JKey, st)
      else if c = CHR 0x22 then Some (JStr True, st)
      else None)"
| "json_step (JColon, st) c =
     (if is_ws c then Some (JColon, st)
      else if c = CHR '':'' then Some (JValue, st)
      else None)"
| "json_step (JAfter, st) c = json_after_value c st"
| "json_step (JStr k, st) c =
     (if c = CHR 0x22 then Some (if k then JColon else JAfter, st)
      else if c = CHR 0x5C then Some (JEsc k, st)
      else if (of_char c :: nat) < 32 then None
      else Some (JStr k, st))"
| "json_step (JEsc k, st) c =
     (if c = CHR 0x22 \<or> c = CHR 0x5C \<or> c = CHR ''/'' \<or> c = CHR ''b'' \<or> c = CHR ''f'' \<or>
         c = CHR ''n'' \<or> c = CHR ''r'' \<or> c = CHR ''t'' then Some (JStr k, st)
      else if c = CHR ''u'' then Some (JHex 4 k, st)
      else None)"
| "json_step (JHex n k, st) c =
     (if is_hex_digit c then Some (if n \<le> 1 then JStr k else JHex (n - 1) k, st) else None)"
| "json_step (JLit xs, st) c =
     (case xs of
        [] \<Rightarrow> None
      | x # xs' \<Rightarrow> if c = x then Some (if xs' = [] then JAfter else JLit xs', st) else None)"
| "json_step (JMinus, st) c =
     (if c = CHR ''0'' then Some (JZero, st)
      else if is_digit c then Some (JInt, st)
      else None)"
| "json_step (JZero, st) c =
     (if c = CHR ''.'' then Some (JDot, st)
      else if c = CHR ''e'' \<or> c = CHR ''E'' then Some (JExp, st)
      else json_after_value c st)"
| "json_step (JInt, st) c =
     (if is_digit c then Some (JInt, st)
      else if c = CHR ''.'' then Some (JDot, st)
      else if c = CHR ''e'' \<or> c = CHR ''E'' then Some (JExp, st)
      else json_after_value c st)"
| "json_step (JDot, st) c = (if is_digit c then Some (JFrac, st) else None)"
| "json_step (JFrac, st) c =
     (if is_digit c then Some (JFrac, st)
      else if c = CHR ''e'' \<or> c = CHR ''E'' then Some (JExp, st)
      else json_after_value c st)"
| "json_step (JExp, st) c =
     (if c = CHR ''+'' \<or> c = CHR ''-'' then Some (JExpSign, st)
      else if is_digit c then Some (JExpDigits, st)
      else None)"
| "json_step (JExpSign, st) c = (if is_digit c then Some (JExpDigits, st) else None)"
| "json_step (JExpDigits, st) c =
     (if is_digit c then Some (JExpDigits, st) else json_after_value c st)"

fun json_run :: "jstate \<Rightarrow> char list \<Rightarrow> jstate option" where
  "json_run s [] = Some s"
| "json_run s (c # cs) = (case json_step s c of None \<Rightarrow> None | Some s' \<Rightarrow> json_run s' cs)"

text \<open>At the end of the text a value must be complete and no container open.\<close>

fun json_final :: "jstate \<Rightarrow> bool" where
  "json_final (m, st) = (st = [] \<and> (m = JAfter \<or> m = JZero \<or> m = JInt \<or> m = JFrac \<or> m = JExpDigits))"

definition is_valid_json :: "char list \<Rightarrow> bool" where
  "is_valid_json text = (case json_run (JValue, []) text of None \<Rightarrow> False | Some s \<Rightarrow> json_final s)"


section \<open>JSON repair (conduit\_json\_repair.c)\<close>

abbreviation DQ :: char where "DQ \<equiv> CHR 0x22"
abbreviation BSL :: char where "BSL \<equiv> CHR 0x5C"

datatype bracket_type = BRACKET_BRACE | BRACKET_SQUARE

datatype json_context = CTX_UNKNOWN | CTX_OBJECT | CTX_ARRAY

text \<open>
  The helpers take the output buffer \<open>buf\<close> and a length \<open>len\<close> and return a new length;
  they read \<open>buf\<close> below \<open>len\<close> only. \<open>buf\<close> is the list of the bytes written so far.
\<close>

fun trim_trailing_whitespace :: "char list \<Rightarrow> nat \<Rightarrow> nat" where
  "trim_trailing_whitespace buf 0 = 0"
| "trim_trailing_whitespace buf (Suc n) =
     (if buf ! n = SP \<or> buf ! n = TAB \<or> buf ! n = LF \<or> buf ! n = CR
      then trim_trailing_whitespace buf n else Suc n)"

definition remove_partial_unicode_escape :: "char list \<Rightarrow> nat \<Rightarrow> nat" where
  "remove_partial_unicode_escape buf len =
     (if len < 2 then len
      else
        let search_start = (if len > 6 then len - 6 else 0);
            backslash_pos = foldl (\<lambda>pos i. if buf ! i = BSL then i else pos) len [search_start..<len]
        in if backslash_pos \<ge> len then len
           else if backslash_pos + 1 \<ge> len then len
           else if buf ! (backslash_pos + 1) = CHR ''u'' then
             (let hex_count = length (takeWhile is_hex_digit (drop (backslash_pos + 2) (take len buf)))
              in if hex_count < 4 then backslash_pos else len)
           else len)"

text \<open>
  The loop of \<open>find_context\<close>: the bracket stack (innermost opener first, at most 256
  entries) after the scan of the bytes.
\<close>

fun find_context_loop :: "char list \<Rightarrow> bracket_type list \<Rightarrow> bool \<Rightarrow> bool \<Rightarrow> bracket_type list" where
  "find_context_loop [] stack in_string escape_next = stack"
| "find_context_loop (c # cs) stack in_string escape_next =
     (if escape_next then find_context_loop cs stack in_string False
      else if in_string then
        (if c = BSL then find_context_loop cs stack in_string True
         else if c = DQ then find_context_loop cs stack False escape_next
         else find_context_loop cs stack in_string escape_next)
      else if c = DQ then find_context_loop cs stack True escape_next
      else if c = CHR ''{'' then
        find_context_loop cs (if length stack < 256 then BRACKET_BRACE # stack else stack)
          in_string escape_next
      else if c = CHR ''}'' then find_context_loop cs (tl stack) in_string escape_next
      else if c = CHR ''['' then
        find_context_loop cs (if length stack < 256 then BRACKET_SQUARE # stack else stack)
          in_string escape_next
      else if c = CHR '']'' then find_context_loop cs (tl stack) in_string escape_next
      else find_context_loop cs stack in_string escape_next)"

definition find_context :: "char list \<Rightarrow> nat \<Rightarrow> json_context" where
  "find_context buf len =
     (case find_context_loop (take len buf) [] False False of
        [] \<Rightarrow> CTX_UNKNOWN
      | b # _ \<Rightarrow> if b = BRACKET_BRACE then CTX_OBJECT else CTX_ARRAY)"

text \<open>The backward loops of \<open>remove_incomplete_kvp\<close>.\<close>

fun back_to_quote :: "char list \<Rightarrow> nat \<Rightarrow> nat" where
  \<comment> \<open>\<open>while (len > 0 && buf[len - 1] != '"') len--;\<close>\<close>
  "back_to_quote buf 0 = 0"
| "back_to_quote buf (Suc n) = (if buf ! n \<noteq> DQ then back_to_quote buf n else Suc n)"

fun count_backslashes :: "char list \<Rightarrow> nat \<Rightarrow> nat" where
  \<comment> \<open>\<open>while (check > 0 && buf[check - 1] == '\\') { backslash_count++; check--; }\<close>\<close>
  "count_backslashes buf 0 = 0"
| "count_backslashes buf (Suc n) = (if buf ! n = BSL then Suc (count_backslashes buf n) else 0)"

fun find_opening_quote :: "char list \<Rightarrow> nat \<Rightarrow> nat" where
  \<comment> \<open>\<open>while (idx > 0) { if (buf[idx] == '"' && even backslash count) break; idx--; }\<close>\<close>
  "find_opening_quote buf 0 = 0"
| "find_opening_quote buf (Suc n) =
     (if buf ! Suc n = DQ \<and> count_backslashes buf (Suc n) mod 2 = 0 then Suc n
      else find_opening_quote buf n)"

fun back_over_whitespace :: "char list \<Rightarrow> nat \<Rightarrow> nat" where
  \<comment> \<open>\<open>while (prev > 0 && (buf[prev] is whitespace)) prev--;\<close>\<close>
  "back_over_whitespace buf 0 = 0"
| "back_over_whitespace buf (Suc n) =
     (if buf ! Suc n = SP \<or> buf ! Suc n = TAB \<or> buf ! Suc n = LF \<or> buf ! Suc n = CR
      then back_over_whitespace buf n else Suc n)"

text \<open>The three patterns of \<open>remove_incomplete_kvp\<close>, each from a length to a length.\<close>

definition kvp_trailing_comma :: "char list \<Rightarrow> nat \<Rightarrow> nat" where
  \<comment> \<open>Pattern: trailing comma\<close>
  "kvp_trailing_comma buf len =
     (if len > 0 \<and> buf ! (len - 1) = CHR '','' then trim_trailing_whitespace buf (len - 1)
      else len)"

definition kvp_trailing_colon :: "char list \<Rightarrow> nat \<Rightarrow> nat" where
  \<comment> \<open>Pattern: ends with colon (key without value)\<close>
  "kvp_trailing_colon buf len =
     (if len > 0 \<and> buf ! (len - 1) = CHR '':'' then
        (let len = trim_trailing_whitespace buf (len - 1) in
         if len > 0 \<and> buf ! (len - 1) = DQ then
           (let len = back_to_quote buf (len - 1);
                len = (if len > 0 then len - 1 else len);
                len = trim_trailing_whitespace buf len
            in if len > 0 \<and> buf ! (len - 1) = CHR '','' then len - 1 else len)
         else len)
      else len)"

definition kvp_trailing_string :: "char list \<Rightarrow> nat \<Rightarrow> nat" where
  \<comment> \<open>Pattern: ends with a quoted string that might be an incomplete key\<close>
  "kvp_trailing_string buf len =
     (if len > 0 \<and> buf ! (len - 1) = DQ then
        (let close_quote = len - 1;
             idx = (if close_quote > 0 then close_quote - 1 else close_quote);
             idx = find_opening_quote buf idx;
             prev = (if idx > 0 then idx - 1 else idx);
             prev = back_over_whitespace buf prev
         in if prev < len \<and> buf ! prev = CHR ''{'' then trim_trailing_whitespace buf idx
            else if prev < len \<and> buf ! prev = CHR '','' then
              (if find_context buf prev = CTX_OBJECT then
                 (let len = trim_trailing_whitespace buf idx
                  in if len > 0 \<and> buf ! (len - 1) = CHR '','' then len - 1 else len)
               else len)
            else len)
      else len)"

definition remove_incomplete_kvp :: "char list \<Rightarrow> nat \<Rightarrow> nat" where
  "remove_incomplete_kvp buf len =
     kvp_trailing_string buf
       (kvp_trailing_colon buf
          (kvp_trailing_comma buf (trim_trailing_whitespace buf len)))"

text \<open>
  \<open>remove_trailing_commas\<close>, called in place (\<open>output == input\<close>). A byte is written at
  \<open>out \<le> i\<close> after the byte at \<open>i\<close> and the look-ahead behind it have been read, so every
  read sees the original content: the loop runs over the bytes still to read and returns
  the bytes written. \<open>out\<close> counts the bytes written so far.
\<close>

fun remove_trailing_commas_loop :: "char list \<Rightarrow> nat \<Rightarrow> nat \<Rightarrow> bool \<Rightarrow> bool \<Rightarrow> char list" where
  "remove_trailing_commas_loop [] out output_capacity in_string escape_next = []"
| "remove_trailing_commas_loop (c # cs) out output_capacity in_string escape_next =
     (if \<not> out < output_capacity - 1 then []
      else if escape_next then
        c # remove_trailing_commas_loop cs (out + 1) output_capacity in_string False
      else if in_string then
        c # remove_trailing_commas_loop cs (out + 1) output_capacity
              (if c = BSL then in_string else if c = DQ then False else in_string)
              (if c = BSL then True else escape_next)
      else if c = DQ then
        c # remove_trailing_commas_loop cs (out + 1) output_capacity True escape_next
      else if c = CHR '','' \<and>
              (case dropWhile (\<lambda>d. d = SP \<or> d = TAB \<or> d = LF \<or> d = CR) cs of
                 [] \<Rightarrow> False
               | d # _ \<Rightarrow> d = CHR ''}'' \<or> d = CHR '']'') then
        remove_trailing_commas_loop cs out output_capacity in_string escape_next
      else c # remove_trailing_commas_loop cs (out + 1) output_capacity in_string escape_next)"

definition remove_trailing_commas :: "char list \<Rightarrow> nat \<Rightarrow> char list" where
  "remove_trailing_commas input output_capacity =
     remove_trailing_commas_loop input 0 output_capacity False False"

text \<open>The state of the first pass of \<open>conduit_json_repair\<close>: the bytes written and the flags.\<close>

record repair_state =
  rs_out :: "char list"
  rs_in_string :: bool
  rs_escape_next :: bool
  rs_stack :: "bracket_type list"

text \<open>
  The first pass over the input from \<open>start\<close> on. The bracket stack has the innermost
  opener first; \<open>stack_depth\<close> is its length.
\<close>

fun copy_loop :: "char list \<Rightarrow> nat \<Rightarrow> nat \<Rightarrow> repair_state \<Rightarrow> repair_state" where
  "copy_loop [] capacity_for_content effective_max s = s"
| "copy_loop (c # cs) capacity_for_content effective_max s =
     (if \<not> length (rs_out s) < capacity_for_content then s
      else if rs_escape_next s then
        copy_loop cs capacity_for_content effective_max
          (s\<lparr>rs_escape_next := False, rs_out := rs_out s @ [c]\<rparr>)
      else if rs_in_string s then
        copy_loop cs capacity_for_content effective_max
          (if c = BSL then s\<lparr>rs_escape_next := True, rs_out := rs_out s @ [c]\<rparr>
           else if c = DQ then s\<lparr>rs_in_string := False, rs_out := rs_out s @ [c]\<rparr>
           else s\<lparr>rs_out := rs_out s @ [c]\<rparr>)
      else
        copy_loop cs capacity_for_content effective_max
          (if c = DQ then s\<lparr>rs_in_string := True, rs_out := rs_out s @ [c]\<rparr>
           else if c = CHR ''{'' then
             s\<lparr>rs_stack := (if length (rs_stack s) < effective_max
                             then BRACKET_BRACE # rs_stack s else rs_stack s),
               rs_out := rs_out s @ [c]\<rparr>
           else if c = CHR ''}'' then s\<lparr>rs_stack := tl (rs_stack s), rs_out := rs_out s @ [c]\<rparr>
           else if c = CHR ''['' then
             s\<lparr>rs_stack := (if length (rs_stack s) < effective_max
                             then BRACKET_SQUARE # rs_stack s else rs_stack s),
               rs_out := rs_out s @ [c]\<rparr>
           else if c = CHR '']'' then s\<lparr>rs_stack := tl (rs_stack s), rs_out := rs_out s @ [c]\<rparr>
           else s\<lparr>rs_out := rs_out s @ [c]\<rparr>))"

text \<open>The loop that closes the open brackets, innermost first.\<close>

fun close_brackets :: "bracket_type list \<Rightarrow> nat \<Rightarrow> char list \<Rightarrow> char list" where
  "close_brackets [] output_capacity out = out"
| "close_brackets (b # stack) output_capacity out =
     (if \<not> length out < output_capacity - 1 then out
      else
        let n = trim_trailing_whitespace out (length out);
            n = (if n > 0 \<and> out ! (n - 1) = CHR '','' then n - 1 else n)
        in close_brackets stack output_capacity
             (take n out @ [if b = BRACKET_BRACE then CHR ''}'' else CHR '']'']))"

text \<open>
  The step after the first pass when it ended inside a string: a partial unicode escape and
  a lone backslash go, and the string is closed.
\<close>

definition close_open_string :: "char list \<Rightarrow> bool \<Rightarrow> nat \<Rightarrow> char list" where
  "close_open_string out escape_next output_capacity =
     (let n = remove_partial_unicode_escape out (length out);
          n = (if escape_next \<and> n > 0 \<and> out ! (n - 1) = BSL then n - 1 else n)
      in if n < output_capacity - 1 then take n out @ [DQ] else take n out)"

text \<open>
  The steps from the end of the first pass to the result: the fix-ups at the tail, the
  closers, and the final pass over the trailing commas.
\<close>

definition repair_tail :: "repair_state \<Rightarrow> nat \<Rightarrow> char list" where
  "repair_tail s output_capacity =
     (let out = (if rs_in_string s
                 then close_open_string (rs_out s) (rs_escape_next s) output_capacity
                 else rs_out s);
          n = trim_trailing_whitespace out (length out);
          n = (if n > 0 \<and> out ! (n - 1) = CHR '','' then n - 1 else n);
          n = remove_incomplete_kvp out n;
          out = close_brackets (rs_stack s) output_capacity (take n out)
      in remove_trailing_commas out output_capacity)"

datatype repair_error = Buffer_too_small

text \<open>
  \<open>conduit_json_repair\<close>. The result is \<open>Inl Buffer_too_small\<close> for the return value -1,
  or \<open>Inr\<close> of the bytes written to \<open>output\<close> before the final \<open>NUL\<close>; the return value is
  then their number.
\<close>

definition conduit_json_repair :: "char list \<Rightarrow> nat \<Rightarrow> int \<Rightarrow> repair_error + char list" where
  "conduit_json_repair input output_capacity max_depth0 =
     (let max_depth = (if max_depth0 < 1 then 1 else max_depth0) in
      if output_capacity < 3 then Inl Buffer_too_small
      else
        let rest = dropWhile (\<lambda>c. c = SP \<or> c = TAB \<or> c = LF \<or> c = CR) input in
        if rest = [] then Inr ''{}''
        else
          let effective_max = nat (if max_depth < 256 then max_depth else 256) in
          if output_capacity \<le> effective_max + 2 then Inl Buffer_too_small
          else
            let capacity_for_content = output_capacity - (effective_max + 2);
                s = copy_loop rest capacity_for_content effective_max
                      \<lparr>rs_out = [], rs_in_string = False, rs_escape_next = False, rs_stack = []\<rparr>
            in Inr (repair_tail s output_capacity))"

definition repair_return_value :: "repair_error + char list \<Rightarrow> int" where
  "repair_return_value r = (case r of Inl e \<Rightarrow> - 1 | Inr out \<Rightarrow> int (length out))"

section \<open>JSON completer (conduit\_json\_completer.c)\<close>





















text \<open>
  The recursion of \<open>complete_value\<close>, \<open>complete_array\<close>, \<open>complete_object\<close> and
  \<open>find_end_of_complete_value\<close>, with the two loops as functions of their own. The six
  functions are the six kinds of \<open>call\<close>; \<open>completer n\<close> runs a call with the bound \<open>n\<close> on
  the depth of the calls and of the loop iterations still allowed, and returns \<open>None\<close>
  when the bound is used up. \<open>conduit_json_complete\<close> starts with a bound that is never
  used up.
\<close>

datatype call =
    Complete_value nat int \<comment> \<open>\<open>pos\<close>, \<open>depth\<close>\<close>
  | Complete_array nat int \<comment> \<open>\<open>pos\<close>, \<open>depth\<close>\<close>
  | Array_loop nat bool nat int \<comment> \<open>\<open>cur\<close>, \<open>requires_comma\<close>, \<open>last_valid\<close>, \<open>depth\<close>\<close>
  | Complete_object nat int \<comment> \<open>\<open>pos\<close>, \<open>depth\<close>\<close>
  | Object_loop nat bool nat int \<comment> \<open>\<open>cur\<close>, \<open>requires_comma\<close>, \<open>last_valid\<close>, \<open>depth\<close>\<close>
  | Find_end_of_complete_value nat \<comment> \<open>\<open>pos\<close>\<close>







section \<open>JSON repair: notions for the proofs\<close>

text \<open>Modes of the checker inside a string, and the mode directly after a backslash.\<close>

fun str_mode :: "jmode \<Rightarrow> bool" where
  "str_mode (JStr k) = True"
| "str_mode (JEsc k) = True"
| "str_mode (JHex n k) = True"
| "str_mode m = False"

fun esc_mode :: "jmode \<Rightarrow> bool" where
  "esc_mode (JEsc k) = True"
| "esc_mode m = False"

text \<open>Whitespace trimmed at both ends, as the claim about valid input words it.\<close>

definition trim_ws :: "char list \<Rightarrow> char list" where
  "trim_ws text = rev (dropWhile is_ws (rev (dropWhile is_ws text)))"

text \<open>The bytes that the scans of the repair look at.\<close>

definition plain :: "char \<Rightarrow> bool" where
  "plain c = (c \<noteq> DQ \<and> c \<noteq> BSL \<and> c \<noteq> CHR ''{'' \<and> c \<noteq> CHR ''}'' \<and> c \<noteq> CHR ''['' \<and>
              c \<noteq> CHR '']'' \<and> c \<noteq> CHR '','' \<and> c \<noteq> CHR '':'')"

text \<open>The modes inside a number or a literal, and the mode after a value.\<close>

fun scalar_mode :: "jmode \<Rightarrow> bool" where
  "scalar_mode JValue = False"
| "scalar_mode JValueOrEnd = False"
| "scalar_mode JKeyOrEnd = False"
| "scalar_mode JKey = False"
| "scalar_mode JColon = False"
| "scalar_mode (JStr k) = False"
| "scalar_mode (JEsc k) = False"
| "scalar_mode (JHex n k) = False"
| "scalar_mode m = True"

text \<open>The literal modes that the checker can reach.\<close>

fun lit_ok :: "jmode \<Rightarrow> bool" where
  "lit_ok (JLit xs) = (xs \<noteq> [] \<and> (\<forall>x\<in>set xs. plain x \<and> \<not> is_ws x \<and> \<not> is_digit x))"
| "lit_ok m = True"

text \<open>The string flags of the scans of the repair, as one step on a byte.\<close>

definition scan_flags :: "bool \<Rightarrow> bool \<Rightarrow> char \<Rightarrow> bool \<times> bool" where
  "scan_flags in_string escape_next c =
     (if escape_next then (in_string, False)
      else if in_string then
        (if c = BSL then (in_string, True) else if c = DQ then (False, escape_next)
         else (in_string, escape_next))
      else if c = DQ then (True, escape_next)
      else (in_string, escape_next))"

text \<open>What a byte read by a scan of the repair does to the depth of the open brackets.\<close>

definition stack_rel :: "bool \<Rightarrow> char \<Rightarrow> jcontainer list \<Rightarrow> jcontainer list \<Rightarrow> bool" where
  "stack_rel in_string c st st' =
     (if in_string then st' = st
      else if c = CHR ''{'' \<or> c = CHR ''['' then length st' = Suc (length st)
      else if c = CHR ''}'' \<or> c = CHR '']'' then length st = Suc (length st')
      else st' = st)"

text \<open>One byte of the first pass of the repair.\<close>

definition copy_step :: "nat \<Rightarrow> repair_state \<Rightarrow> char \<Rightarrow> repair_state" where
  "copy_step effective_max s c =
     (if rs_escape_next s then s\<lparr>rs_escape_next := False, rs_out := rs_out s @ [c]\<rparr>
      else if rs_in_string s then
        (if c = BSL then s\<lparr>rs_escape_next := True, rs_out := rs_out s @ [c]\<rparr>
         else if c = DQ then s\<lparr>rs_in_string := False, rs_out := rs_out s @ [c]\<rparr>
         else s\<lparr>rs_out := rs_out s @ [c]\<rparr>)
      else
        (if c = DQ then s\<lparr>rs_in_string := True, rs_out := rs_out s @ [c]\<rparr>
         else if c = CHR ''{'' then
           s\<lparr>rs_stack := (if length (rs_stack s) < effective_max
                           then BRACKET_BRACE # rs_stack s else rs_stack s),
             rs_out := rs_out s @ [c]\<rparr>
         else if c = CHR ''}'' then s\<lparr>rs_stack := tl (rs_stack s), rs_out := rs_out s @ [c]\<rparr>
         else if c = CHR ''['' then
           s\<lparr>rs_stack := (if length (rs_stack s) < effective_max
                           then BRACKET_SQUARE # rs_stack s else rs_stack s),
             rs_out := rs_out s @ [c]\<rparr>
         else if c = CHR '']'' then s\<lparr>rs_stack := tl (rs_stack s), rs_out := rs_out s @ [c]\<rparr>
         else s\<lparr>rs_out := rs_out s @ [c]\<rparr>))"

fun final_mode :: "jmode \<Rightarrow> bool" where
  "final_mode JAfter = True"
| "final_mode JZero = True"
| "final_mode JInt = True"
| "final_mode JFrac = True"
| "final_mode JExpDigits = True"
| "final_mode m = False"

text \<open>With no container open, the checker is in a scalar or after the value.\<close>

fun top_done :: "jstate \<Rightarrow> bool" where
  "top_done (m, st) = (st = [] \<longrightarrow> scalar_mode m)"

text \<open>The number of backslashes at the end of a byte sequence.\<close>

definition trailing_bs :: "char list \<Rightarrow> nat" where
  "trailing_bs xs = length (takeWhile (\<lambda>c. c = BSL) (rev xs))"

text \<open>Inside a string that is the whole text: the mode against the backslashes before.\<close>

fun top_string_inv :: "jmode \<Rightarrow> nat \<Rightarrow> bool" where
  "top_string_inv JAfter n = True"
| "top_string_inv (JStr k) n = (\<not> k \<and> even n)"
| "top_string_inv (JEsc k) n = (\<not> k \<and> odd n)"
| "top_string_inv (JHex d k) n = (\<not> k \<and> even n)"
| "top_string_inv m n = False"

section \<open>JSON completer: notions for the proofs\<close>






section \<open>Line buffer: properties\<close>

lemma takeWhile_neq_append:
  "c \<notin> set xs \<Longrightarrow> takeWhile (\<lambda>x. x \<noteq> c) (xs @ ys) = xs @ takeWhile (\<lambda>x. x \<noteq> c) ys"
  by (induction xs) auto

lemma memchr_first:
  "c \<notin> set xs \<Longrightarrow> memchr (xs @ c # ys) c = Some (length xs)"
  by (simp add: memchr_def takeWhile_neq_append)

lemma memchr_after:
  "c \<notin> set xs \<Longrightarrow> c \<noteq> d \<Longrightarrow> memchr (xs @ d # ys) c = Some k \<Longrightarrow> length xs < k"
  by (auto simp: memchr_def takeWhile_neq_append split: if_splits)

lemma first_delimiter:
  assumes "d = LF \<or> d = CR" "LF \<notin> set xs" "CR \<notin> set xs"
  shows "(case memchr (xs @ d # ys) LF of
            Some l \<Rightarrow> (case memchr (xs @ d # ys) CR of
                         Some c \<Rightarrow> Some (if l < c then l else c)
                       | None \<Rightarrow> Some l)
          | None \<Rightarrow> memchr (xs @ d # ys) CR) = Some (length xs)"
proof -
  from assms(1) show ?thesis
  proof
    assume d: "d = LF"
    have lf: "memchr (xs @ d # ys) LF = Some (length xs)"
      using assms(2) d by (simp add: memchr_first)
    show ?thesis
    proof (cases "memchr (xs @ d # ys) CR")
      case None
      then show ?thesis using lf by simp
    next
      case (Some k)
      then have "length xs < k" using memchr_after [of CR xs d ys k] assms(3) d by simp
      then show ?thesis using lf Some by simp
    qed
  next
    assume d: "d = CR"
    have cr: "memchr (xs @ d # ys) CR = Some (length xs)"
      using assms(3) d by (simp add: memchr_first)
    show ?thesis
    proof (cases "memchr (xs @ d # ys) LF")
      case None
      then show ?thesis using cr by simp
    next
      case (Some k)
      then have "length xs < k" using memchr_after [of LF xs d ys k] assms(2) d by simp
      then show ?thesis using cr Some by simp
    qed
  qed
qed

text \<open>
  Claim C10. When the pending bytes hold a line (the bytes before the first \<open>\n\<close> or
  \<open>\r\<close>), \<open>conduit_line_buffer_next_line\<close> returns 0 and leaves the line buffer, the
  caller's buffer and the caller's length as they were whenever \<open>line_out_capacity\<close> is
  less than or equal to the length of the line, also when it is equal to it; with a larger
  capacity it returns 1, writes the line to the start of \<open>line_out\<close> and a \<open>NUL\<close> byte
  directly after it.
\<close>

theorem next_line_terminator_and_refusal:
  assumes pend: "pending_bytes buf = line @ d # rest"
    and d: "d = LF \<or> d = CR"
    and nolf: "LF \<notin> set line" and nocr: "CR \<notin> set line"
    and cap: "length line_out = line_out_capacity"
  shows "(line_out_capacity \<le> length line \<longrightarrow>
            conduit_line_buffer_next_line buf line_out line_out_capacity line_len
              = (0, buf, line_out, line_len)) \<and>
         (length line < line_out_capacity \<longrightarrow>
            (\<exists>buf' line_out'.
               conduit_line_buffer_next_line buf line_out line_out_capacity line_len
                 = (1, buf', line_out', length line) \<and>
               take (length line) line_out' = line \<and>
               line_out' ! length line = NUL \<and>
               length line_out' = line_out_capacity))"
proof -
  let ?start = "take (write_pos buf - read_pos buf) (drop (read_pos buf) (data buf))"
  have start: "?start = line @ d # rest" using pend by (simp add: pending_bytes_def)
  have pos: "write_pos buf - read_pos buf \<noteq> 0"
  proof
    assume "write_pos buf - read_pos buf = 0"
    then have "?start = []" by simp
    then show False using start by simp
  qed
  have nl: "(case memchr ?start LF of
            Some l \<Rightarrow> (case memchr ?start CR of
                         Some c \<Rightarrow> Some (if l < c then l else c)
                       | None \<Rightarrow> Some l)
          | None \<Rightarrow> memchr ?start CR) = Some (length line)"
    unfolding start by (rule first_delimiter [OF d nolf nocr])
  have tk: "take (length line) ?start = line" unfolding start by simp
  show ?thesis
  proof (intro conjI impI)
    assume "line_out_capacity \<le> length line"
    then show "conduit_line_buffer_next_line buf line_out line_out_capacity line_len
              = (0, buf, line_out, line_len)"
      using pos nl by (simp add: conduit_line_buffer_next_line_def Let_def)
  next
    assume lt: "length line < line_out_capacity"
    let ?out = "mem_write line_out 0 (line @ [NUL])"
    have 1: "take (length line) ?out = line" by (simp add: mem_write_def)
    have 2: "?out ! length line = NUL" by (simp add: mem_write_def nth_append)
    have 3: "length ?out = line_out_capacity" using lt cap by (simp add: mem_write_def)
    have "\<exists>buf'. conduit_line_buffer_next_line buf line_out line_out_capacity line_len
                 = (1, buf', ?out, length line)"
      using pos nl lt tk by (simp add: conduit_line_buffer_next_line_def Let_def)
    then show "\<exists>buf' line_out'.
               conduit_line_buffer_next_line buf line_out line_out_capacity line_len
                 = (1, buf', line_out', length line) \<and>
               take (length line) line_out' = line \<and>
               line_out' ! length line = NUL \<and>
               length line_out' = line_out_capacity"
      using 1 2 3 by blast
  qed
qed

theorem next_line_terminator_and_refusal_witness:
  "conduit_line_buffer_next_line
      (snd (conduit_line_buffer_append (conduit_line_buffer_create 0) [CHR ''a'', CHR ''b'', LF, CHR ''c''] True))
      ''xx'' 2 0
     = (0, snd (conduit_line_buffer_append (conduit_line_buffer_create 0) [CHR ''a'', CHR ''b'', LF, CHR ''c''] True),
        ''xx'', 0) \<and>
   (\<exists>buf'. conduit_line_buffer_next_line
      (snd (conduit_line_buffer_append (conduit_line_buffer_create 0) [CHR ''a'', CHR ''b'', LF, CHR ''c''] True))
      ''xxxx'' 4 0
     = (1, buf', [CHR ''a'', CHR ''b'', NUL, CHR ''x''], 2))"
proof -
  let ?buf = "snd (conduit_line_buffer_append (conduit_line_buffer_create 0)
                     [CHR ''a'', CHR ''b'', LF, CHR ''c''] True)"
  have pend: "pending_bytes ?buf = ''ab'' @ LF # ''c''" by code_simp
  have d: "LF = LF \<or> LF = CR" by simp
  have nolf: "LF \<notin> set ''ab''" and nocr: "CR \<notin> set ''ab''" by simp_all
  have small: "conduit_line_buffer_next_line ?buf ''xx'' 2 0 = (0, ?buf, ''xx'', 0)"
    using next_line_terminator_and_refusal [OF pend d nolf nocr, of "''xx''" 2 0] by simp
  obtain buf' out' where
    r: "conduit_line_buffer_next_line ?buf ''xxxx'' 4 0 = (1, buf', out', length ''ab'')"
    and t: "take (length ''ab'') out' = ''ab''" and n: "out' ! length ''ab'' = NUL"
    and l: "length out' = 4"
    using next_line_terminator_and_refusal [OF pend d nolf nocr, of "''xxxx''" 4 0] by auto
  have "out' = [CHR ''a'', CHR ''b'', NUL, CHR ''x'']"
  proof -
    obtain a b c e where o: "out' = [a, b, c, e]"
      using l by (auto simp: length_Suc_conv numeral_eq_Suc)
    have "conduit_line_buffer_next_line ?buf ''xxxx'' 4 0 = (1, buf', out', 2)" using r by simp
    then have "fst (snd (snd (conduit_line_buffer_next_line ?buf ''xxxx'' 4 0))) ! 3 = out' ! 3"
      by simp
    moreover have "fst (snd (snd (conduit_line_buffer_next_line ?buf ''xxxx'' 4 0))) ! 3 = CHR ''x''"
      by code_simp
    ultimately show ?thesis using o t n by simp
  qed
  then show ?thesis using small r by auto
qed

lemma maybe_compact_pending:
  "conduit_line_buffer_pending (maybe_compact buf) = conduit_line_buffer_pending buf"
  by (simp add: maybe_compact_def conduit_line_buffer_pending_def Let_def)

lemma maybe_compact_inv: "lb_inv buf \<Longrightarrow> lb_inv (maybe_compact buf)"
  by (auto simp: maybe_compact_def lb_inv_def Let_def mem_write_def)

lemma append_account:
  assumes "lb_inv buf" "conduit_line_buffer_append buf bytes ok = (ret, buf')"
  shows "lb_inv buf' \<and>
         conduit_line_buffer_pending buf' =
           conduit_line_buffer_pending buf + (if ret = 0 then length bytes else 0)"
proof -
  have c: "lb_inv (maybe_compact buf)" using assms(1) by (rule maybe_compact_inv)
  have p: "write_pos (maybe_compact buf) - read_pos (maybe_compact buf) = write_pos buf - read_pos buf"
    using maybe_compact_pending [of buf] by (simp add: conduit_line_buffer_pending_def)
  show ?thesis
    using assms c p
    by (auto simp: conduit_line_buffer_append_def conduit_line_buffer_pending_def Let_def
        lb_inv_def mem_write_def split: if_splits)
qed

lemma memchr_Some:
  "memchr xs c = Some k \<Longrightarrow> k < length xs \<and> xs ! k = c"
proof -
  assume a: "memchr xs c = Some k"
  have "c \<in> set xs \<Longrightarrow>
          length (takeWhile (\<lambda>x. x \<noteq> c) xs) < length xs \<and>
          xs ! length (takeWhile (\<lambda>x. x \<noteq> c) xs) = c"
    by (induction xs) auto
  then show ?thesis using a by (auto simp: memchr_def split: if_splits)
qed

lemma next_line_account:
  assumes inv: "lb_inv buf"
    and call: "conduit_line_buffer_next_line buf out cap ll = (ret, buf', out', len')"
  shows "lb_inv buf' \<and>
         (if ret = 1
          then conduit_line_buffer_pending buf' + (len' + delimiter_width (pending_bytes buf) len')
                 = conduit_line_buffer_pending buf
          else conduit_line_buffer_pending buf' = conduit_line_buffer_pending buf)"
proof (cases "ret = 1")
  case False
  then have "buf' = buf"
    using call
    by (auto simp: conduit_line_buffer_next_line_def Let_def split: if_splits option.splits)
  then show ?thesis using False inv by simp
next
  case True
  let ?start = "take (write_pos buf - read_pos buf) (drop (read_pos buf) (data buf))"
  from True call obtain n where
    nl: "(case memchr ?start LF of
            Some l \<Rightarrow> (case memchr ?start CR of
                         Some c \<Rightarrow> Some (if l < c then l else c)
                       | None \<Rightarrow> Some l)
          | None \<Rightarrow> memchr ?start CR) = Some n"
    and len: "len' = n"
    and buf': "buf' = maybe_compact (buf\<lparr>read_pos := read_pos buf + (n + 1 +
                 (if data buf ! (read_pos buf + n) = CR \<and> read_pos buf + (n + 1) < write_pos buf \<and>
                     data buf ! (read_pos buf + (n + 1)) = LF then 1 else 0))\<rparr>)"
    by (auto simp: conduit_line_buffer_next_line_def Let_def split: if_splits option.splits)
  have n: "n < length ?start"
    using nl by (auto split: option.splits if_splits dest: memchr_Some)
  have wf: "read_pos buf \<le> write_pos buf" "write_pos buf \<le> length (data buf)"
    using inv by (simp_all add: lb_inv_def)
  have ls: "length ?start = write_pos buf - read_pos buf" using wf by simp
  have nth: "\<And>i. i < write_pos buf - read_pos buf \<Longrightarrow> ?start ! i = data buf ! (read_pos buf + i)"
    using wf by simp
  have dw: "delimiter_width (pending_bytes buf) n =
            1 + (if data buf ! (read_pos buf + n) = CR \<and> read_pos buf + (n + 1) < write_pos buf \<and>
                     data buf ! (read_pos buf + (n + 1)) = LF then 1 else 0)"
    using n ls nth [of n] nth [of "n + 1"] wf
    by (auto simp: delimiter_width_def pending_bytes_def)
  let ?b = "buf\<lparr>read_pos := read_pos buf + (n + 1 +
                 (if data buf ! (read_pos buf + n) = CR \<and> read_pos buf + (n + 1) < write_pos buf \<and>
                     data buf ! (read_pos buf + (n + 1)) = LF then 1 else 0))\<rparr>"
  have binv: "lb_inv ?b" using inv n ls by (auto simp: lb_inv_def)
  have bp: "conduit_line_buffer_pending ?b + (n + delimiter_width (pending_bytes buf) n)
              = conduit_line_buffer_pending buf"
    using n ls wf unfolding dw by (auto simp: conduit_line_buffer_pending_def)
  show ?thesis
    using True len buf' maybe_compact_inv [OF binv] maybe_compact_pending [of ?b] bp by simp
qed

lemma lb_run_account:
  "lb_inv buf \<Longrightarrow> conduit_line_buffer_pending buf + C = B \<Longrightarrow>
   lb_run calls (buf, B, C) = (buf', B', C') \<Longrightarrow>
   lb_inv buf' \<and> conduit_line_buffer_pending buf' + C' = B'"
proof (induction calls arbitrary: buf B C)
  case Nil
  then show ?case by simp
next
  case (Cons c calls)
  show ?case
  proof (cases c)
    case (Append bytes ok)
    obtain ret b1 where r: "conduit_line_buffer_append buf bytes ok = (ret, b1)"
      by (cases "conduit_line_buffer_append buf bytes ok")
    from append_account [OF Cons.prems(1) r]
    have 1: "lb_inv b1"
      and 2: "conduit_line_buffer_pending b1 + C = (if ret = 0 then B + length bytes else B)"
      using Cons.prems(2) by auto
    from Cons.prems(3) have "lb_run calls (b1, if ret = 0 then B + length bytes else B, C) = (buf', B', C')"
      using Append r by simp
    from Cons.IH [OF 1 2 this] show ?thesis .
  next
    case (Next_line out cap)
    obtain ret b1 out' len' where r: "conduit_line_buffer_next_line buf out cap 0 = (ret, b1, out', len')"
      by (cases "conduit_line_buffer_next_line buf out cap 0")
    from next_line_account [OF Cons.prems(1) r]
    have 1: "lb_inv b1"
      and 2: "conduit_line_buffer_pending b1 +
                (if ret = 1 then C + len' + delimiter_width (pending_bytes buf) len' else C) = B"
      using Cons.prems(2) by (auto split: if_splits)
    from Cons.prems(3) have "lb_run calls (b1, B,
        if ret = 1 then C + len' + delimiter_width (pending_bytes buf) len' else C) = (buf', B', C')"
      using Next_line r by simp
    from Cons.IH [OF 1 2 this] show ?thesis .
  qed
qed

lemma create_inv: "lb_inv (conduit_line_buffer_create n)"
  by (simp add: conduit_line_buffer_create_def lb_inv_def Let_def)

text \<open>
  Claim C7. After any sequence of \<open>append\<close> and \<open>next_line\<close> calls on a freshly created
  line buffer, with \<open>B\<close> the bytes of the appends that returned 0 and \<open>C\<close> the bytes
  consumed by the \<open>next_line\<close> calls that returned 1 (line bytes plus delimiter),
  \<open>pending()\<close> is exactly \<open>B - C\<close>; compaction leaves the pending count as it is.
\<close>

theorem pending_is_appended_minus_consumed:
  "(case lb_run calls (conduit_line_buffer_create n, 0, 0) of
      (buf, B, C) \<Rightarrow>
        conduit_line_buffer_pending buf = B - C \<and> C \<le> B \<and>
        conduit_line_buffer_pending (maybe_compact buf) = conduit_line_buffer_pending buf)"
proof -
  obtain buf B C where r: "lb_run calls (conduit_line_buffer_create n, 0, 0) = (buf, B, C)"
    by (cases "lb_run calls (conduit_line_buffer_create n, 0, 0)")
  have "conduit_line_buffer_pending (conduit_line_buffer_create n) + 0 = 0"
    by (simp add: conduit_line_buffer_create_def conduit_line_buffer_pending_def Let_def)
  from lb_run_account [OF create_inv this r]
  have "conduit_line_buffer_pending buf + C = B" by simp
  then show ?thesis using r maybe_compact_pending [of buf] by auto
qed

theorem pending_is_appended_minus_consumed_witness:
  "snd (lb_run [Append [CHR ''a'', CR, LF, CHR ''b'', LF, CHR ''c''] True,
                Next_line (replicate 8 NUL) 8, Next_line (replicate 8 NUL) 8]
          (conduit_line_buffer_create 0, 0, 0)) = (6, 5) \<and>
   conduit_line_buffer_pending
     (fst (lb_run [Append [CHR ''a'', CR, LF, CHR ''b'', LF, CHR ''c''] True,
                   Next_line (replicate 8 NUL) 8, Next_line (replicate 8 NUL) 8]
             (conduit_line_buffer_create 0, 0, 0))) = 1"
proof -
  let ?r = "lb_run [Append [CHR ''a'', CR, LF, CHR ''b'', LF, CHR ''c''] True,
                    Next_line (replicate 8 NUL) 8, Next_line (replicate 8 NUL) 8]
              (conduit_line_buffer_create 0, 0, 0)"
  have e: "snd ?r = (6, 5)" by code_simp
  then show ?thesis
    using pending_is_appended_minus_consumed
      [of "[Append [CHR ''a'', CR, LF, CHR ''b'', LF, CHR ''c''] True,
            Next_line (replicate 8 NUL) 8, Next_line (replicate 8 NUL) 8]" 0]
    by (auto split: prod.splits)
qed

text \<open>
  Claim C4. The lines returned do depend on how the input is cut into \<open>append\<close> calls: with
  \<open>a\r\<close> appended, a line extracted, and \<open>\nb\n\<close> appended after that, \<open>next_line\<close>
  returns the lines \<open>a\<close>, the empty line and \<open>b\<close>, while the concatenated input
  \<open>a\r\nb\n\<close> splits into \<open>a\<close> and \<open>b\<close>. The look-ahead for the \<open>\n\<close> of a \<open>\r\n\<close>
  pair only sees bytes that are already in the buffer.
\<close>

theorem crlf_split_across_appends:
  "lb_lines [Append [CHR ''a'', CR] True, Next_line (replicate 8 NUL) 8,
             Append [LF, CHR ''b'', LF] True, Next_line (replicate 8 NUL) 8,
             Next_line (replicate 8 NUL) 8]
     (conduit_line_buffer_create 0) = [''a'', [], ''b''] \<and>
   split_lines ([CHR ''a'', CR] @ [LF, CHR ''b'', LF]) = [''a'', ''b'']"
  by code_simp

section \<open>SSE parser: properties\<close>


text \<open>
  The two other ways in which the first \<open>data\<close> line of a block leaves the data empty as a
  C string: its append fails to allocate (\<open>conduit_sse_ingest_line\<close> ignores the result of
  \<open>dyn_str_append\<close> and sets \<open>has_data\<close> all the same), or its value starts with a \<open>NUL\<close>
  byte.
\<close>

lemma first_data_line_conditions_needed:
  "snd (sse_run [Ingest_line ''data: x'' False True, Ingest_line '''' True True]
          conduit_sse_parser_create)
     = [\<lparr>ev_id = None, ev_event = None, ev_data = [], ev_retry = - 1\<rparr>] \<and>
   snd (sse_run [Ingest_line (''data: '' @ [NUL, CHR ''x'']) True True, Ingest_line '''' True True]
          conduit_sse_parser_create)
     = [\<lparr>ev_id = None, ev_event = None, ev_data = [], ev_retry = - 1\<rparr>]"
  by code_simp














text \<open>
  Claim C5. The guard \<open>ms > 214748364\<close> of the \<open>retry\<close> loop lets a tenth digit 8 or 9
  through after \<open>214748364\<close>, so \<open>ms * 10 + digit\<close> overflows \<open>int\<close>; with the wrapped
  result the loop goes on, and the value \<open>21474836481\<close>, which is greater than
  2,147,483,647, is accepted: \<open>reconnection_time\<close> and \<open>current_retry\<close> become 1.
\<close>

theorem retry_overflow_accepted:
  "conduit_sse_ingest_line conduit_sse_parser_create ''retry: 21474836481'' True True
     = (conduit_sse_parser_create\<lparr>reconnection_time := 1, current_retry := 1\<rparr>, [])"
  by code_simp

text \<open>
  The retry half of claim C9 holds: \<open>dispatch_if_needed\<close> resets \<open>current_retry\<close> to -1, the
  three lengths and the three flags, and leaves \<open>last_event_id\<close> and \<open>reconnection_time\<close>
  alone; an event carries the retry value of its own block, and later events carry -1 as
  long as no \<open>retry\<close> line is ingested.
\<close>

lemma dispatch_resets:
  "dispatch_if_needed p = (p', es) \<Longrightarrow>
     current_retry p' = - 1 \<and> ds_len (current_id p') = 0 \<and> ds_len (current_event p') = 0 \<and>
     ds_len (current_data p') = 0 \<and> \<not> has_id p' \<and> \<not> has_event p' \<and> \<not> has_data p' \<and>
     last_event_id p' = last_event_id p \<and> reconnection_time p' = reconnection_time p \<and>
     (\<forall>e\<in>set es. ev_retry e = current_retry p)"
  by (auto simp: dispatch_if_needed_def reset_current_event_def dyn_str_clear_def Let_def
      split: if_splits)

lemma ingest_retry_frame:
  assumes nr: "fst (sse_split (sse_strip l)) \<noteq> ''retry''"
    and call: "conduit_sse_ingest_line p l ok1 ok2 = (p', es)"
  shows "(current_retry p' = current_retry p \<or> current_retry p' = - 1) \<and>
         (\<forall>e\<in>set es. ev_retry e = current_retry p)"
proof (cases "length (sse_strip l) = 0")
  case True
  then have "dispatch_if_needed p = (p', es)"
    using call by (simp add: conduit_sse_ingest_line_def Let_def)
  from dispatch_resets [OF this] show ?thesis by simp
next
  case False
  obtain field v where sp: "sse_split (sse_strip l) = (field, v)"
    by (cases "sse_split (sse_strip l)")
  then have "field \<noteq> ''retry''" using nr by simp
  then show ?thesis
    using call False sp
    by (auto simp: conduit_sse_ingest_line_def Let_def split: if_splits prod.splits)
qed

lemma finish_retry_frame:
  assumes call: "conduit_sse_finish p = (p', es)"
  shows "(current_retry p' = current_retry p \<or> current_retry p' = - 1) \<and>
         (\<forall>e\<in>set es. ev_retry e = current_retry p)"
proof (cases "ds_len (current_data p) > 0 \<or> has_id p \<or> has_event p")
  case True
  then have "dispatch_if_needed p = (p', es)" using call by (simp add: conduit_sse_finish_def)
  from dispatch_resets [OF this] show ?thesis by simp
next
  case False
  then show ?thesis using call by (auto simp: conduit_sse_finish_def)
qed

lemma run_retry_unset:
  "current_retry p = - 1 \<Longrightarrow> \<forall>c\<in>set calls. \<not> retry_call c \<Longrightarrow>
   \<forall>e\<in>set (snd (sse_run calls p)). ev_retry e = - 1"
proof (induction calls arbitrary: p)
  case Nil
  then show ?case by simp
next
  case (Cons c calls)
  show ?case
  proof (cases c)
    case (Ingest_line l ok1 ok2)
    obtain p1 es where r: "conduit_sse_ingest_line p l ok1 ok2 = (p1, es)"
      by (cases "conduit_sse_ingest_line p l ok1 ok2")
    have nr: "fst (sse_split (sse_strip l)) \<noteq> ''retry''" using Cons.prems(2) Ingest_line by simp
    from ingest_retry_frame [OF nr r] Cons.prems(1)
    have 1: "current_retry p1 = - 1" and 2: "\<forall>e\<in>set es. ev_retry e = - 1" by auto
    have 3: "\<forall>e\<in>set (snd (sse_run calls p1)). ev_retry e = - 1"
      using Cons.IH [OF 1] Cons.prems(2) by simp
    show ?thesis using Ingest_line r 2 3 by (auto split: prod.splits)
  next
    case Finish
    obtain p1 es where r: "conduit_sse_finish p = (p1, es)"
      by (cases "conduit_sse_finish p")
    from finish_retry_frame [OF r] Cons.prems(1)
    have 1: "current_retry p1 = - 1" and 2: "\<forall>e\<in>set es. ev_retry e = - 1" by auto
    have 3: "\<forall>e\<in>set (snd (sse_run calls p1)). ev_retry e = - 1"
      using Cons.IH [OF 1] Cons.prems(2) by simp
    show ?thesis using Finish r 2 3 by (auto split: prod.splits)
  qed
qed

text \<open>
  Claim C9 fails on the current fields. \<open>reset_current_event\<close> clears the three strings with
  \<open>dyn_str_clear\<close>, which sets the length to 0 and leaves the bytes where they are, and
  \<open>dispatch_if_needed\<close> hands out \<open>dyn_str_cstr\<close>, the block itself, whatever the length.
  After the block \<open>data: b\<close> has been dispatched, the block \<open>id: 7\<close> has no \<open>data\<close> line, and
  the event dispatched for it by \<open>conduit_sse_finish\<close> still carries the data \<open>b\<close>: the data
  of a block persists across the dispatch.
\<close>

theorem stale_data_after_dispatch:
  "snd (sse_run [Ingest_line ''data: b'' True True, Ingest_line '''' True True,
                 Ingest_line ''id: 7'' True True, Finish]
          conduit_sse_parser_create)
     = [\<lparr>ev_id = None, ev_event = None, ev_data = ''b'', ev_retry = - 1\<rparr>,
        \<lparr>ev_id = Some ''7'', ev_event = None, ev_data = ''b'', ev_retry = - 1\<rparr>] \<and>
   ds_len (current_data (fst (sse_run [Ingest_line ''data: b'' True True, Ingest_line '''' True True]
                                conduit_sse_parser_create))) = 0 \<and>
   dyn_str_cstr (current_data (fst (sse_run [Ingest_line ''data: b'' True True,
                                             Ingest_line '''' True True]
                                      conduit_sse_parser_create))) = ''b''"
  by code_simp

section \<open>Vector operations: properties\<close>

text \<open>
  Claim C8 fails on a query that holds a NaN. In every arithmetic with the IEEE 754 facts
  \<open>ieee_nan_one\<close>, for the query \<open>{NaN}\<close> and the one vector \<open>{1.0}\<close> (\<open>dimensions = 1\<close>,
  \<open>count = 1\<close>): the norm of the query is NaN, the test \<open>query_norm == 0.0f\<close> of the batch
  function is false and its test \<open>vec_norm > 0.0f\<close> is true, so \<open>results[0]\<close> is NaN;
  in \<open>conduit_cosine_similarity\<close> the test \<open>denom > 0.0f\<close> is false on the NaN
  denominator, so it returns \<open>0.0f\<close>. The two results differ.
\<close>

theorem batch_differs_on_nan_query:
  assumes "ieee_nan_one ops nan one"
  shows "conduit_cosine_similarity_batch ops [nan] [one] 1 1 [r] = [nan] \<and>
         conduit_cosine_similarity ops [nan] (drop (0 * 1) [one]) 1 = fzero ops \<and>
         conduit_cosine_similarity_batch ops [nan] [one] 1 1 [r] ! 0
           \<noteq> conduit_cosine_similarity ops [nan] (drop (0 * 1) [one]) 1"
proof -
  have b: "conduit_cosine_similarity_batch ops [nan] [one] 1 1 [r] = [nan]"
    using assms by (simp add: ieee_nan_one_def conduit_cosine_similarity_batch_def Let_def)
  have s: "conduit_cosine_similarity ops [nan] (drop (0 * 1) [one]) 1 = fzero ops"
    using assms by (simp add: ieee_nan_one_def conduit_cosine_similarity_def Let_def)
  have "nan \<noteq> fzero ops" using assms by (simp add: ieee_nan_one_def)
  then show ?thesis unfolding b s by simp
qed

theorem batch_differs_on_nan_query_witness:
  "ieee_nan_one real_nan_ops None (Some 1) \<and>
   conduit_cosine_similarity_batch real_nan_ops [None] [Some 1] 1 1 [Some 0] = [None] \<and>
   conduit_cosine_similarity real_nan_ops [None] (drop (0 * 1) [Some 1]) 1 = Some 0"
proof -
  have h: "ieee_nan_one real_nan_ops None (Some 1)"
    by (simp add: ieee_nan_one_def real_nan_ops_def)
  have z: "fzero real_nan_ops = Some 0" by (simp add: real_nan_ops_def)
  from batch_differs_on_nan_query [OF h, of "Some 0"] h show ?thesis
    unfolding z by blast
qed

section \<open>JSON repair: properties\<close>

lemma ws_plain: "is_ws c \<Longrightarrow> plain c \<and> \<not> is_digit c"
  by (auto simp: is_ws_def plain_def is_digit_def)

lemma digit_plain: "is_digit c \<Longrightarrow> plain c \<and> \<not> is_ws c"
  by (auto simp: is_ws_def plain_def is_digit_def)

lemma hex_plain: "is_hex_digit c \<Longrightarrow> plain c \<and> \<not> is_ws c"
  by (auto simp: is_ws_def plain_def is_hex_digit_def Let_def)

lemma value_start_plain:
  assumes "json_value_start c st = Some (m', st')"
    and "c \<noteq> CHR ''{''" "c \<noteq> CHR ''[''" "c \<noteq> DQ"
  shows "plain c \<and> \<not> is_ws c \<and> st' = st \<and> \<not> str_mode m' \<and> lit_ok m' \<and>
         m' \<noteq> JValue \<and> m' \<noteq> JKey \<and> m' \<noteq> JAfter \<and> scalar_mode m'"
proof -
  have d: "is_digit c \<Longrightarrow> plain c \<and> \<not> is_ws c" by (rule digit_plain)
  have l: "c = CHR ''t'' \<or> c = CHR ''f'' \<or> c = CHR ''n'' \<or> c = CHR ''-'' \<or> c = CHR ''0''
           \<Longrightarrow> plain c \<and> \<not> is_ws c"
    by (auto simp: plain_def is_ws_def)
  have p: "plain c \<and> \<not> is_ws c"
    using assms d l by (simp add: json_value_start_def split: if_splits)
  have m: "st' = st \<and> \<not> str_mode m' \<and> lit_ok m' \<and> m' \<noteq> JValue \<and> m' \<noteq> JKey \<and> m' \<noteq> JAfter \<and>
           scalar_mode m'"
    using assms
    by (auto simp: json_value_start_def plain_def is_ws_def is_digit_def split: if_splits)
  show ?thesis using p m by simp
qed

lemma value_start_cases:
  assumes "json_value_start c st = Some (m', st')"
  shows "(c = CHR ''{'' \<and> m' = JKeyOrEnd \<and> st' = JObj # st) \<or>
         (c = CHR ''['' \<and> m' = JValueOrEnd \<and> st' = JArr # st) \<or>
         (c = DQ \<and> m' = JStr False \<and> st' = st) \<or>
         (plain c \<and> \<not> is_ws c \<and> st' = st \<and> \<not> str_mode m' \<and> lit_ok m' \<and>
            m' \<noteq> JValue \<and> m' \<noteq> JKey \<and> m' \<noteq> JAfter \<and> scalar_mode m')"
proof (cases "c = CHR ''{''")
  case True
  then show ?thesis using assms by (simp add: json_value_start_def)
next
  case n1: False
  show ?thesis
  proof (cases "c = CHR ''[''")
    case True
    then show ?thesis using assms by (simp add: json_value_start_def)
  next
    case n2: False
    show ?thesis
    proof (cases "c = DQ")
      case True
      then show ?thesis using assms by (simp add: json_value_start_def)
    next
      case False
      from value_start_plain [OF assms n1 n2 False] show ?thesis by blast
    qed
  qed
qed

lemma after_value_cases:
  assumes "json_after_value c st = Some (m', st')"
  shows "(is_ws c \<and> m' = JAfter \<and> st' = st) \<or>
         (c = CHR '','' \<and> st' = st \<and> st \<noteq> [] \<and> (m' = JValue \<or> m' = JKey)) \<or>
         (c = CHR '']'' \<and> m' = JAfter \<and> st = JArr # st') \<or>
         (c = CHR ''}'' \<and> m' = JAfter \<and> st = JObj # st')"
  using assms
  by (auto simp: json_after_value_def is_ws_def split: if_splits list.splits jcontainer.splits)

lemma ws_special: "is_ws c \<Longrightarrow> c \<noteq> DQ \<and> c \<noteq> BSL \<and> c \<noteq> CHR ''{'' \<and> c \<noteq> CHR ''}'' \<and> c \<noteq> CHR ''['' \<and>
              c \<noteq> CHR '']'' \<and> c \<noteq> CHR '','' \<and> c \<noteq> CHR '':''"
  using ws_plain by (auto simp: plain_def)

lemma lit_ok_value_start: "json_value_start c st = Some (m', st') \<Longrightarrow> lit_ok m'"
  by (drule value_start_cases) auto

lemma lit_ok_after_value: "json_after_value c st = Some (m', st') \<Longrightarrow> lit_ok m'"
  by (drule after_value_cases) auto

lemma lit_ok_step:
  assumes "json_step (m, st) c = Some (m', st')" "lit_ok m"
  shows "lit_ok m'"
proof (cases m)
  case (JLit xs)
  then show ?thesis using assms by (cases xs) (auto split: if_splits)
qed (use assms in \<open>auto dest: lit_ok_value_start lit_ok_after_value
       split: if_splits list.splits jcontainer.splits\<close>)

lemma value_start_flags:
  assumes "json_value_start c st = Some (m', st')"
  shows "str_mode m' = (c = DQ) \<and> \<not> esc_mode m'"
  using assms by (auto simp: json_value_start_def split: if_splits)

lemma after_value_flags:
  assumes "json_after_value c st = Some (m', st')"
  shows "c \<noteq> DQ \<and> c \<noteq> BSL \<and> \<not> str_mode m' \<and> \<not> esc_mode m'"
  using assms
  by (auto simp: json_after_value_def is_ws_def split: if_splits list.splits jcontainer.splits)

lemma flag_step:
  assumes "json_step (m, st) c = Some (m', st')" "lit_ok m"
  shows "(str_mode m', esc_mode m') = scan_flags (str_mode m) (esc_mode m) c"
proof (cases m)
  case JValue
  then show ?thesis using assms
    by (auto simp: scan_flags_def dest: value_start_flags ws_special split: if_splits)
next
  case JValueOrEnd
  then show ?thesis using assms
    by (auto simp: scan_flags_def dest: value_start_flags ws_special split: if_splits list.splits jcontainer.splits)
next
  case JKeyOrEnd
  then show ?thesis using assms
    by (auto simp: scan_flags_def dest: ws_special split: if_splits list.splits jcontainer.splits)
next
  case JKey
  then show ?thesis using assms
    by (auto simp: scan_flags_def dest: ws_special split: if_splits)
next
  case JColon
  then show ?thesis using assms
    by (auto simp: scan_flags_def dest: ws_special split: if_splits)
next
  case JAfter
  then show ?thesis using assms
    by (auto simp: scan_flags_def dest: after_value_flags)
next
  case (JStr k)
  then show ?thesis using assms
    by (auto simp: scan_flags_def split: if_splits)
next
  case (JEsc k)
  then show ?thesis using assms
    by (auto simp: scan_flags_def split: if_splits)
next
  case (JHex n k)
  then show ?thesis using assms
    by (auto simp: scan_flags_def plain_def dest: hex_plain split: if_splits)
next
  case (JLit xs)
  then obtain x xs' where xs: "xs = x # xs'" using assms(1) by (cases xs) auto
  have 1: "c = x \<and> \<not> str_mode m' \<and> \<not> esc_mode m'"
    using assms(1) JLit xs by (auto split: if_splits)
  have "plain x" using assms(2) JLit xs by simp
  then have "c \<noteq> DQ" using 1 by (simp add: plain_def)
  then show ?thesis using 1 JLit by (simp add: scan_flags_def)
next
  case JMinus
  then show ?thesis using assms
    by (auto simp: scan_flags_def plain_def dest: digit_plain split: if_splits)
next
  case JZero
  then show ?thesis using assms
    by (auto simp: scan_flags_def dest: after_value_flags split: if_splits)
next
  case JInt
  then show ?thesis using assms
    by (auto simp: scan_flags_def plain_def dest: after_value_flags digit_plain split: if_splits)
next
  case JDot
  then show ?thesis using assms
    by (auto simp: scan_flags_def plain_def dest: digit_plain split: if_splits)
next
  case JFrac
  then show ?thesis using assms
    by (auto simp: scan_flags_def plain_def dest: after_value_flags digit_plain split: if_splits)
next
  case JExp
  then show ?thesis using assms
    by (auto simp: scan_flags_def plain_def dest: digit_plain split: if_splits)
next
  case JExpSign
  then show ?thesis using assms
    by (auto simp: scan_flags_def plain_def dest: digit_plain split: if_splits)
next
  case JExpDigits
  then show ?thesis using assms
    by (auto simp: scan_flags_def plain_def dest: after_value_flags digit_plain split: if_splits)
qed

lemma value_start_stack:
  assumes "json_value_start c st = Some (m', st')"
  shows "c \<noteq> CHR ''}'' \<and> c \<noteq> CHR '']'' \<and> c \<noteq> CHR '','' \<and> c \<noteq> CHR '':'' \<and>
         (if c = CHR ''{'' \<or> c = CHR ''['' then length st' = Suc (length st) else st' = st)"
  using value_start_cases [OF assms] by (auto simp: plain_def)

lemma after_value_stack:
  assumes "json_after_value c st = Some (m', st')"
  shows "c \<noteq> CHR ''{'' \<and> c \<noteq> CHR ''['' \<and> c \<noteq> CHR '':'' \<and>
         (if c = CHR ''}'' \<or> c = CHR '']'' then length st = Suc (length st') else st' = st)"
  using after_value_cases [OF assms] by (auto dest: ws_special)

lemma stack_rel_value_start:
  "json_value_start c st = Some (m', st') \<Longrightarrow> stack_rel False c st st'"
  by (drule value_start_stack) (simp add: stack_rel_def)

lemma stack_rel_after_value:
  "json_after_value c st = Some (m', st') \<Longrightarrow> stack_rel False c st st'"
  by (drule after_value_stack) (simp add: stack_rel_def)

lemma stack_rel_same:
  "c \<noteq> CHR ''{'' \<Longrightarrow> c \<noteq> CHR ''['' \<Longrightarrow> c \<noteq> CHR ''}'' \<Longrightarrow> c \<noteq> CHR '']'' \<Longrightarrow>
   stack_rel False c st st"
  by (simp add: stack_rel_def)

lemma stack_rel_ws: "is_ws c \<Longrightarrow> stack_rel False c st st"
  by (auto simp: stack_rel_def is_ws_def)

lemma stack_rel_digit: "is_digit c \<Longrightarrow> stack_rel False c st st"
  by (drule digit_plain) (simp add: stack_rel_def plain_def)

lemma stack_rel_string: "stack_rel True c st st"
  by (simp add: stack_rel_def)

lemma stack_rel_close:
  "stack_rel False (CHR '']'') (x # st) st" "stack_rel False (CHR ''}'') (x # st) st"
  by (simp_all add: stack_rel_def)

lemmas stack_rel_intros =
  stack_rel_value_start stack_rel_after_value stack_rel_same stack_rel_ws stack_rel_digit
  stack_rel_string stack_rel_close

lemma stack_step:
  assumes "json_step (m, st) c = Some (m', st')" "lit_ok m"
  shows "stack_rel (str_mode m) c st st'"
proof (cases m)
  case JValue
  then show ?thesis using assms
    by (auto intro: stack_rel_intros split: if_splits)
next
  case JValueOrEnd
  then show ?thesis using assms
    by (auto intro: stack_rel_intros split: if_splits list.splits jcontainer.splits)
next
  case JKeyOrEnd
  then show ?thesis using assms
    by (auto intro: stack_rel_intros split: if_splits list.splits jcontainer.splits)
next
  case JKey
  then show ?thesis using assms by (auto intro: stack_rel_intros split: if_splits)
next
  case JColon
  then show ?thesis using assms by (auto intro: stack_rel_intros split: if_splits)
next
  case JAfter
  then show ?thesis using assms by (auto intro: stack_rel_intros split: if_splits)
next
  case (JStr k)
  then show ?thesis using assms by (auto intro: stack_rel_intros split: if_splits)
next
  case (JEsc k)
  then show ?thesis using assms by (auto intro: stack_rel_intros split: if_splits)
next
  case (JHex n k)
  then show ?thesis using assms by (auto intro: stack_rel_intros split: if_splits)
next
  case (JLit xs)
  then obtain x xs' where xs: "xs = x # xs'" using assms(1) by (cases xs) auto
  have 1: "c = x \<and> st' = st"
    using assms(1) JLit xs by (auto split: if_splits)
  have "plain x" using assms(2) JLit xs by simp
  then show ?thesis using 1 JLit by (simp add: plain_def stack_rel_def)
next
  case JMinus
  then show ?thesis using assms by (auto intro: stack_rel_intros split: if_splits)
next
  case JZero
  then show ?thesis using assms by (auto intro: stack_rel_intros split: if_splits)
next
  case JInt
  then show ?thesis using assms by (auto intro: stack_rel_intros split: if_splits)
next
  case JDot
  then show ?thesis using assms by (auto intro: stack_rel_intros split: if_splits)
next
  case JFrac
  then show ?thesis using assms by (auto intro: stack_rel_intros split: if_splits)
next
  case JExp
  then show ?thesis using assms by (auto intro: stack_rel_intros split: if_splits)
next
  case JExpSign
  then show ?thesis using assms by (auto intro: stack_rel_intros split: if_splits)
next
  case JExpDigits
  then show ?thesis using assms by (auto intro: stack_rel_intros split: if_splits)
qed

lemma after_value_comma:
  assumes "json_after_value (CHR '','') st = Some (m', st')"
  shows "m' = JValue \<or> m' = JKey"
  using assms
  by (auto simp: json_after_value_def is_ws_def split: if_splits list.splits jcontainer.splits)

lemma comma_facts:
  "json_value_start (CHR '','') st = None" "\<not> is_ws (CHR '','')" "\<not> is_digit (CHR '','')"
  by (simp_all add: json_value_start_def is_digit_def is_ws_def)

lemma comma_step:
  assumes "json_step (m, st) (CHR '','') = Some (m', st')" "lit_ok m" "\<not> str_mode m"
  shows "m' = JValue \<or> m' = JKey"
proof (cases m)
  case (JLit xs)
  then obtain x xs' where xs: "xs = x # xs'" using assms(1) by (cases xs) auto
  have 1: "x = CHR '',''" using assms(1) JLit xs by (auto split: if_splits)
  have "plain x" using assms(2) JLit xs by simp
  then show ?thesis using 1 by (simp add: plain_def)
qed (use assms in \<open>auto simp: comma_facts dest: after_value_comma\<close>)

lemma no_closer_after_comma:
  assumes "m = JValue \<or> m = JKey" "json_run (m, st) cs = Some s"
    and "dropWhile (\<lambda>d. d = SP \<or> d = TAB \<or> d = LF \<or> d = CR) cs = d # ds"
  shows "d \<noteq> CHR ''}'' \<and> d \<noteq> CHR '']''"
  using assms
proof (induction cs)
  case Nil
  then show ?case by simp
next
  case (Cons c cs)
  show ?case
  proof (cases "c = SP \<or> c = TAB \<or> c = LF \<or> c = CR")
    case True
    then have "json_step (m, st) c = Some (m, st)"
      using Cons.prems(1) by (auto simp: is_ws_def)
    then have "json_run (m, st) cs = Some s" using Cons.prems(2) by simp
    moreover have "dropWhile (\<lambda>d. d = SP \<or> d = TAB \<or> d = LF \<or> d = CR) cs = d # ds"
      using Cons.prems(3) True by simp
    ultimately show ?thesis using Cons.IH Cons.prems(1) by simp
  next
    case False
    then have d: "d = c" using Cons.prems(3) by simp
    obtain m1 st1 where "json_step (m, st) c = Some (m1, st1)"
      using Cons.prems(2) by (cases "json_step (m, st) c") auto
    then show ?thesis using Cons.prems(1) d
      by (auto simp: is_ws_def dest: value_start_stack split: if_splits)
  qed
qed

lemma lit_ok_run:
  "json_run s cs = Some s' \<Longrightarrow> lit_ok (fst s) \<Longrightarrow> lit_ok (fst s')"
proof (induction cs arbitrary: s)
  case Nil
  then show ?case by simp
next
  case (Cons c cs)
  obtain m st where s: "s = (m, st)" by (cases s)
  obtain m1 st1 where 1: "json_step (m, st) c = Some (m1, st1)"
    using Cons.prems(1) s by (cases "json_step (m, st) c") auto
  have "lit_ok m1" using lit_ok_step [OF 1] Cons.prems(2) s by simp
  moreover have "json_run (m1, st1) cs = Some s'" using Cons.prems(1) s 1 by simp
  ultimately show ?case using Cons.IH [of "(m1, st1)"] by simp
qed

lemma copy_loop_Cons:
  "copy_loop (c # cs) cfc em s =
     (if \<not> length (rs_out s) < cfc then s else copy_loop cs cfc em (copy_step em s c))"
  by (simp add: copy_step_def)

lemma copy_step_out: "rs_out (copy_step em s c) = rs_out s @ [c]"
  by (simp add: copy_step_def)

lemma copy_step_flags:
  "(rs_in_string (copy_step em s c), rs_escape_next (copy_step em s c))
     = scan_flags (rs_in_string s) (rs_escape_next s) c"
  by (simp add: copy_step_def scan_flags_def)

lemma copy_step_stack:
  assumes "stack_rel (rs_in_string s) c st st'" "rs_escape_next s \<longrightarrow> rs_in_string s"
    "length (rs_stack s) \<le> length st"
  shows "length (rs_stack (copy_step em s c)) \<le> length st'"
proof (cases "rs_in_string s")
  case True
  then have "rs_stack (copy_step em s c) = rs_stack s" by (simp add: copy_step_def)
  moreover have "st' = st" using assms(1) True by (simp add: stack_rel_def)
  ultimately show ?thesis using assms(3) by simp
next
  case False
  then have ne: "\<not> rs_escape_next s" using assms(2) by simp
  consider (opener) "c = CHR ''{'' \<or> c = CHR ''[''" | (closer) "c = CHR ''}'' \<or> c = CHR '']''"
    | (other) "c \<noteq> CHR ''{''" "c \<noteq> CHR ''[''" "c \<noteq> CHR ''}''" "c \<noteq> CHR '']''"
    by blast
  then show ?thesis
  proof cases
    case opener
    then have "length st' = Suc (length st)" using assms(1) False by (simp add: stack_rel_def)
    moreover have "length (rs_stack (copy_step em s c)) \<le> Suc (length (rs_stack s))"
      using opener False ne by (auto simp: copy_step_def)
    ultimately show ?thesis using assms(3) by simp
  next
    case closer
    then have "length st = Suc (length st')" using assms(1) False by (auto simp: stack_rel_def)
    moreover have "rs_stack (copy_step em s c) = tl (rs_stack s)"
      using closer False ne by (auto simp: copy_step_def)
    ultimately show ?thesis using assms(3) by simp
  next
    case other
    then have "st' = st" using assms(1) False by (simp add: stack_rel_def)
    moreover have "rs_stack (copy_step em s c) = rs_stack s"
      using other False ne by (simp add: copy_step_def)
    ultimately show ?thesis using assms(3) by simp
  qed
qed

lemma esc_str_mode: "esc_mode m \<Longrightarrow> str_mode m"
  by (cases m) auto

lemma copy_loop_valid:
  assumes "json_run (m, st) cs = Some (m', st')" "lit_ok m"
    "rs_in_string s = str_mode m" "rs_escape_next s = esc_mode m"
    "length (rs_stack s) \<le> length st"
    "length (rs_out s) + length cs \<le> cfc"
  shows "rs_out (copy_loop cs cfc em s) = rs_out s @ cs \<and>
         rs_in_string (copy_loop cs cfc em s) = str_mode m' \<and>
         rs_escape_next (copy_loop cs cfc em s) = esc_mode m' \<and>
         length (rs_stack (copy_loop cs cfc em s)) \<le> length st'"
  using assms
proof (induction cs arbitrary: m st s)
  case Nil
  then show ?case by simp
next
  case (Cons c cs)
  obtain m1 st1 where 1: "json_step (m, st) c = Some (m1, st1)"
    using Cons.prems(1) by (cases "json_step (m, st) c") auto
  have run: "json_run (m1, st1) cs = Some (m', st')" using Cons.prems(1) 1 by simp
  have lit: "lit_ok m1" using lit_ok_step [OF 1 Cons.prems(2)] .
  let ?s = "copy_step em s c"
  have fl: "(str_mode m1, esc_mode m1) = scan_flags (str_mode m) (esc_mode m) c"
    using flag_step [OF 1 Cons.prems(2)] .
  have "(rs_in_string ?s, rs_escape_next ?s) = (str_mode m1, esc_mode m1)"
    unfolding copy_step_flags fl Cons.prems(3,4) ..
  then have f: "rs_in_string ?s = str_mode m1" "rs_escape_next ?s = esc_mode m1"
    by simp_all
  have sr: "stack_rel (rs_in_string s) c st st1"
    using stack_step [OF 1 Cons.prems(2)] Cons.prems(3) by simp
  have es: "rs_escape_next s \<longrightarrow> rs_in_string s"
    using Cons.prems(3,4) esc_str_mode by simp
  have stk: "length (rs_stack ?s) \<le> length st1"
    using copy_step_stack [OF sr es Cons.prems(5)] .
  have len: "length (rs_out ?s) + length cs \<le> cfc"
    using Cons.prems(6) by (simp add: copy_step_out)
  have lt: "length (rs_out s) < cfc" using Cons.prems(6) by simp
  from Cons.IH [OF run lit f stk len]
  show ?case using lt by (simp add: copy_loop_Cons copy_step_out del: copy_loop.simps)
qed

lemma remove_trailing_commas_loop_Cons:
  assumes "out < cap - 1"
    and "\<not> (\<not> esc \<and> \<not> ins \<and> c = CHR '','' \<and>
            (case dropWhile (\<lambda>d. d = SP \<or> d = TAB \<or> d = LF \<or> d = CR) cs of
               [] \<Rightarrow> False
             | d # _ \<Rightarrow> d = CHR ''}'' \<or> d = CHR '']''))"
  shows "remove_trailing_commas_loop (c # cs) out cap ins esc =
           c # remove_trailing_commas_loop cs (out + 1) cap
                 (fst (scan_flags ins esc c)) (snd (scan_flags ins esc c))"
proof (cases esc)
  case True
  then show ?thesis using assms(1) by (simp add: scan_flags_def)
next
  case ne: False
  show ?thesis
  proof (cases ins)
    case True
    then show ?thesis using assms(1) ne by (simp add: scan_flags_def)
  next
    case False
    show ?thesis
    proof (cases "c = DQ")
      case True
      then show ?thesis using assms(1) ne False by (simp add: scan_flags_def)
    next
      case nq: False
      have "\<not> (c = CHR '','' \<and>
            (case dropWhile (\<lambda>d. d = SP \<or> d = TAB \<or> d = LF \<or> d = CR) cs of
               [] \<Rightarrow> False
             | d # _ \<Rightarrow> d = CHR ''}'' \<or> d = CHR '']''))"
        using assms(2) ne False by simp
      then show ?thesis using assms(1) ne False nq by (auto simp: scan_flags_def)
    qed
  qed
qed

lemma remove_trailing_commas_valid:
  assumes "json_run (m, st) cs = Some s'" "lit_ok m"
    "ins = str_mode m" "esc = esc_mode m" "out + length cs \<le> cap - 1"
  shows "remove_trailing_commas_loop cs out cap ins esc = cs"
  using assms
proof (induction cs arbitrary: m st out ins esc)
  case Nil
  then show ?case by simp
next
  case (Cons c cs)
  obtain m1 st1 where 1: "json_step (m, st) c = Some (m1, st1)"
    using Cons.prems(1) by (cases "json_step (m, st) c") auto
  have run: "json_run (m1, st1) cs = Some s'" using Cons.prems(1) 1 by simp
  have lit: "lit_ok m1" using lit_ok_step [OF 1 Cons.prems(2)] .
  have fl: "(str_mode m1, esc_mode m1) = scan_flags ins esc c"
    using flag_step [OF 1 Cons.prems(2)] Cons.prems(3,4) by simp
  have f: "fst (scan_flags ins esc c) = str_mode m1" "snd (scan_flags ins esc c) = esc_mode m1"
    unfolding fl [symmetric] by simp_all
  have lt: "out < cap - 1" using Cons.prems(5) by simp
  have len: "(out + 1) + length cs \<le> cap - 1" using Cons.prems(5) by simp
  have keep: "\<not> (\<not> esc \<and> \<not> ins \<and> c = CHR '','' \<and>
            (case dropWhile (\<lambda>d. d = SP \<or> d = TAB \<or> d = LF \<or> d = CR) cs of
               [] \<Rightarrow> False
             | d # _ \<Rightarrow> d = CHR ''}'' \<or> d = CHR '']''))"
  proof
    assume a: "\<not> esc \<and> \<not> ins \<and> c = CHR '','' \<and>
            (case dropWhile (\<lambda>d. d = SP \<or> d = TAB \<or> d = LF \<or> d = CR) cs of
               [] \<Rightarrow> False
             | d # _ \<Rightarrow> d = CHR ''}'' \<or> d = CHR '']'')"
    then obtain d ds where
      dw: "dropWhile (\<lambda>d. d = SP \<or> d = TAB \<or> d = LF \<or> d = CR) cs = d # ds"
      and d: "d = CHR ''}'' \<or> d = CHR '']''"
      by (auto split: list.splits)
    have "\<not> str_mode m" using a Cons.prems(3) by simp
    moreover have "json_step (m, st) (CHR '','') = Some (m1, st1)" using 1 a by simp
    ultimately have "m1 = JValue \<or> m1 = JKey" using comma_step Cons.prems(2) by blast
    from no_closer_after_comma [OF this run dw] d show False by simp
  qed
  have "remove_trailing_commas_loop (c # cs) out cap ins esc =
           c # remove_trailing_commas_loop cs (out + 1) cap
                 (fst (scan_flags ins esc c)) (snd (scan_flags ins esc c))"
    using remove_trailing_commas_loop_Cons [OF lt keep] .
  also have "remove_trailing_commas_loop cs (out + 1) cap
                 (fst (scan_flags ins esc c)) (snd (scan_flags ins esc c)) = cs"
    using Cons.IH [OF run lit f len] .
  finally show ?case .
qed

lemma json_run_append:
  "json_run s (xs @ ys) = (case json_run s xs of None \<Rightarrow> None | Some s1 \<Rightarrow> json_run s1 ys)"
  by (induction xs arbitrary: s) (auto split: option.splits)

lemma json_run_leading_ws:
  "json_run (JValue, []) (dropWhile is_ws inp) = json_run (JValue, []) inp"
  by (induction inp) auto

lemma json_final_iff: "json_final (m, st) = (st = [] \<and> final_mode m)"
  by (cases m) auto

lemma ws_facts:
  assumes "is_ws c"
  shows "json_value_start c st = None" "json_after_value c st = Some (JAfter, st)"
    "\<not> is_digit c" "\<not> is_hex_digit c" "c \<noteq> DQ" "c \<noteq> BSL" "c \<noteq> CHR '']''" "c \<noteq> CHR ''}''"
    "c \<noteq> CHR '':''" "c \<noteq> CHR ''.''" "c \<noteq> CHR ''e''" "c \<noteq> CHR ''E''" "c \<noteq> CHR ''+''"
    "c \<noteq> CHR ''-''" "c \<noteq> CHR ''0''" "c \<noteq> CHR ''u''" "c \<noteq> CHR ''/''" "c \<noteq> CHR ''b''"
    "c \<noteq> CHR ''f''" "c \<noteq> CHR ''n''" "c \<noteq> CHR ''r''" "c \<noteq> CHR ''t''"
  using assms
  by (auto simp: is_ws_def json_value_start_def json_after_value_def is_digit_def
        is_hex_digit_def)

lemma ws_step:
  assumes "json_step (m, st) c = Some (m1, st1)" "is_ws c" "lit_ok m"
  shows "st1 = st \<and> (m1 = m \<or> (m1 = JAfter \<and> final_mode m))"
proof (cases m)
  case (JLit xs)
  then obtain x xs' where xs: "xs = x # xs'" using assms(1) by (cases xs) auto
  have "c = x" using assms(1) JLit xs by (auto split: if_splits)
  moreover have "\<not> is_ws x" using assms(3) JLit xs by simp
  ultimately show ?thesis using assms(2) by simp
qed (use assms(1) ws_facts [OF assms(2)] in \<open>simp_all split: if_splits\<close>)

lemma final_before_ws:
  assumes "json_step (m, st) c = Some (m1, st1)" "is_ws c" "json_final (m1, st1)" "lit_ok m"
  shows "json_final (m, st)"
  using ws_step [OF assms(1,2,4)] assms(3) by (auto simp: json_final_iff simp del: json_final.simps)

lemma final_before_ws_run:
  "json_run s t = Some sf \<Longrightarrow> \<forall>c\<in>set t. is_ws c \<Longrightarrow> json_final sf \<Longrightarrow> lit_ok (fst s) \<Longrightarrow>
   json_final s"
proof (induction t arbitrary: s)
  case Nil
  then show ?case by simp
next
  case (Cons c t)
  obtain m st where s: "s = (m, st)" by (cases s)
  obtain m1 st1 where 1: "json_step (m, st) c = Some (m1, st1)"
    using Cons.prems(1) s by (cases "json_step (m, st) c") auto
  have lit: "lit_ok m" using Cons.prems(4) s by simp
  have "json_run (m1, st1) t = Some sf" using Cons.prems(1) s 1 by simp
  then have "json_final (m1, st1)"
    using Cons.IH [of "(m1, st1)"] Cons.prems(2,3) lit_ok_step [OF 1 lit] by simp
  then show ?case using final_before_ws [OF 1 _ _ lit] Cons.prems(2) s by simp
qed

lemma comma_colon_facts:
  "json_value_start (CHR '':'') st = None" "json_after_value (CHR '':'') st = None"
  "\<not> is_ws (CHR '':'')" "\<not> is_digit (CHR '':'')" "\<not> is_hex_digit (CHR '':'')"
  "\<not> is_hex_digit (CHR '','')"
  by (simp_all add: json_value_start_def json_after_value_def is_ws_def is_digit_def
        is_hex_digit_def)

lemma dq_facts:
  "json_value_start DQ st = Some (JStr False, st)" "json_after_value DQ st = None"
  "\<not> is_ws DQ" "\<not> is_digit DQ" "\<not> is_hex_digit DQ"
  by (simp_all add: json_value_start_def json_after_value_def is_ws_def is_digit_def
        is_hex_digit_def)

lemma not_final_after_comma:
  assumes "json_step (m, st) (CHR '','') = Some (m1, st1)" "lit_ok m"
  shows "\<not> final_mode m1"
proof (cases m)
  case (JLit xs)
  then obtain x xs' where xs: "xs = x # xs'" using assms(1) by (cases xs) auto
  have "x = CHR '',''" using assms(1) JLit xs by (auto split: if_splits)
  moreover have "plain x" using assms(2) JLit xs by simp
  ultimately show ?thesis by (simp add: plain_def)
qed (use assms(1) in \<open>auto simp: comma_facts comma_colon_facts dest: after_value_comma
       split: if_splits\<close>)

lemma not_final_after_colon:
  assumes "json_step (m, st) (CHR '':'') = Some (m1, st1)" "lit_ok m"
  shows "\<not> final_mode m1"
proof (cases m)
  case (JLit xs)
  then obtain x xs' where xs: "xs = x # xs'" using assms(1) by (cases xs) auto
  have "x = CHR '':''" using assms(1) JLit xs by (auto split: if_splits)
  moreover have "plain x" using assms(2) JLit xs by simp
  ultimately show ?thesis by (simp add: plain_def)
qed (use assms(1) in \<open>auto simp: comma_colon_facts split: if_splits\<close>)

lemma final_after_quote:
  assumes "json_step (m, st) DQ = Some (m1, st1)" "lit_ok m" "final_mode m1"
  shows "m = JStr False \<and> st1 = st"
proof (cases m)
  case (JLit xs)
  then obtain x xs' where xs: "xs = x # xs'" using assms(1) by (cases xs) auto
  have "x = DQ" using assms(1) JLit xs by (auto split: if_splits)
  moreover have "plain x" using assms(2) JLit xs by simp
  ultimately show ?thesis by (simp add: plain_def)
qed (use assms(1,3) in \<open>auto simp: dq_facts split: if_splits\<close>)

lemma last_byte_of_valid:
  assumes "json_step (m, st) c = Some (m1, st1)" "json_final (m1, st1)" "lit_ok m"
  shows "c \<noteq> CHR '','' \<and> c \<noteq> CHR '':'' \<and> (c = DQ \<longrightarrow> m = JStr False \<and> st = [])"
  using assms not_final_after_comma [of m st m1 st1] not_final_after_colon [of m st m1 st1]
    final_after_quote [of m st m1 st1]
  by (auto simp: json_final_iff simp del: json_final.simps)

lemma top_done_step:
  assumes "json_step (m, st) c = Some (m1, st1)" "top_done (m, st)" "lit_ok m"
  shows "top_done (m1, st1)"
proof (cases m)
  case (JLit xs)
  then obtain x xs' where xs: "xs = x # xs'" using assms(1) by (cases xs) auto
  then show ?thesis using assms(1) JLit by (auto split: if_splits)
qed (use assms(1,2) in \<open>auto dest!: value_start_cases after_value_cases
       split: if_splits list.splits jcontainer.splits\<close>)

lemma top_done_run:
  "json_run s cs = Some s' \<Longrightarrow> top_done s \<Longrightarrow> lit_ok (fst s) \<Longrightarrow> top_done s'"
proof (induction cs arbitrary: s)
  case Nil
  then show ?case by simp
next
  case (Cons c cs)
  obtain m st where s: "s = (m, st)" by (cases s)
  obtain m1 st1 where 1: "json_step (m, st) c = Some (m1, st1)"
    using Cons.prems(1) s by (cases "json_step (m, st) c") auto
  have "top_done (m1, st1)" using top_done_step [OF 1] Cons.prems(2,3) s by simp
  moreover have "lit_ok m1" using lit_ok_step [OF 1] Cons.prems(3) s by simp
  moreover have "json_run (m1, st1) cs = Some s'" using Cons.prems(1) s 1 by simp
  ultimately show ?case using Cons.IH [of "(m1, st1)"] by simp
qed

lemma first_byte_of_value:
  assumes "json_step (JValue, []) c = Some (m1, st1)" "\<not> is_ws c"
  shows "(c = DQ \<and> m1 = JStr False \<and> st1 = []) \<or> (c \<noteq> DQ \<and> top_done (m1, st1))"
  using assms by (auto dest!: value_start_cases simp: plain_def)

lemma trailing_bs_snoc: "trailing_bs (xs @ [c]) = (if c = BSL then Suc (trailing_bs xs) else 0)"
  by (simp add: trailing_bs_def)

lemma trailing_bs_Nil: "trailing_bs [] = 0"
  by (simp add: trailing_bs_def)

lemma trailing_bs_Cons: "c \<noteq> BSL \<Longrightarrow> trailing_bs (c # xs) = trailing_bs xs"
  by (induction xs rule: rev_induct) (simp_all add: trailing_bs_def)

lemma count_backslashes_take:
  "n \<le> length buf \<Longrightarrow> count_backslashes buf n = trailing_bs (take n buf)"
proof (induction n)
  case 0
  then show ?case by (simp add: trailing_bs_Nil)
next
  case (Suc n)
  then have "take (Suc n) buf = take n buf @ [buf ! n]" by (simp add: take_Suc_conv_app_nth)
  then show ?case using Suc by (simp add: trailing_bs_snoc)
qed

lemma after_value_top:
  "json_after_value c [] = Some (m1, st1) \<Longrightarrow> is_ws c \<and> m1 = JAfter \<and> st1 = []"
  by (auto simp: json_after_value_def split: if_splits)

lemma top_string_step:
  assumes "json_step (m, []) c = Some (m1, st1)" "top_string_inv m n"
  shows "st1 = [] \<and> top_string_inv m1 (if c = BSL then Suc n else 0)"
proof (cases m)
  case JAfter
  then show ?thesis using assms after_value_top [of c m1 st1] by (auto dest: ws_special)
next
  case (JStr k)
  then show ?thesis using assms by (auto split: if_splits)
next
  case (JEsc k)
  then show ?thesis using assms by (auto split: if_splits)
next
  case (JHex d k)
  then show ?thesis using assms by (auto simp: plain_def dest: hex_plain split: if_splits)
qed (use assms in auto)

lemma top_string_run:
  "json_run (JStr False, []) xs = Some (m, st) \<Longrightarrow> st = [] \<and> top_string_inv m (trailing_bs xs)"
proof (induction xs arbitrary: m st rule: rev_induct)
  case Nil
  then show ?case by (auto simp: trailing_bs_Nil)
next
  case (snoc c xs)
  from snoc.prems obtain m0 st0 where
    0: "json_run (JStr False, []) xs = Some (m0, st0)" and 1: "json_step (m0, st0) c = Some (m, st)"
    by (auto simp: json_run_append split: option.splits)
  from snoc.IH [OF 0] have st0: "st0 = []" and inv: "top_string_inv m0 (trailing_bs xs)" by auto
  from top_string_step [OF 1 [unfolded st0] inv] show ?case by (simp add: trailing_bs_snoc)
qed

lemma after_absorbing:
  "json_run (JAfter, []) zs = Some (m, st) \<Longrightarrow> m = JAfter \<and> st = []"
proof (induction zs)
  case Nil
  then show ?case by simp
next
  case (Cons c zs)
  then show ?case by (auto dest!: after_value_top split: option.splits)
qed

lemma interior_quote_escaped:
  assumes "json_run (JStr False, []) (ys @ DQ # zs) = Some (m, st)" "str_mode m"
  shows "odd (trailing_bs ys)"
proof -
  from assms(1) obtain m0 st0 s2 where
    0: "json_run (JStr False, []) ys = Some (m0, st0)"
    and 1: "json_step (m0, st0) DQ = Some s2" and 2: "json_run s2 zs = Some (m, st)"
    by (auto simp: json_run_append split: option.splits)
  from top_string_run [OF 0] have st0: "st0 = []" and inv: "top_string_inv m0 (trailing_bs ys)"
    by auto
  show ?thesis
  proof (cases m0)
    case (JStr k)
    then have "s2 = (JAfter, [])" using 1 inv st0 by simp
    then have "m = JAfter" using 2 after_absorbing by blast
    then show ?thesis using assms(2) by simp
  next
    case (JEsc k)
    then show ?thesis using inv by simp
  qed (use 1 inv st0 in \<open>auto simp: dq_facts\<close>)
qed

lemma is_ws_lambda: "(\<lambda>c. c = SP \<or> c = TAB \<or> c = LF \<or> c = CR) = is_ws"
  by (rule ext) (simp add: is_ws_def)

lemma trim_keep:
  "0 < n \<Longrightarrow> \<not> is_ws (buf ! (n - 1)) \<Longrightarrow> trim_trailing_whitespace buf n = n"
  by (cases n) (auto simp: is_ws_def)

lemma trim_suffix:
  "(\<And>i. n \<le> i \<Longrightarrow> i < n + k \<Longrightarrow> is_ws (buf ! i)) \<Longrightarrow>
   trim_trailing_whitespace buf (n + k) = trim_trailing_whitespace buf n"
proof (induction k)
  case 0
  then show ?case by simp
next
  case (Suc k)
  have "is_ws (buf ! (n + k))" using Suc.prems [of "n + k"] by simp
  then have "trim_trailing_whitespace buf (n + Suc k) = trim_trailing_whitespace buf (n + k)"
    by (simp add: is_ws_def)
  then show ?case using Suc by simp
qed

lemma trim_append_ws:
  assumes "w \<noteq> []" "\<not> is_ws (last w)" "\<forall>c\<in>set t. is_ws c"
  shows "trim_trailing_whitespace (w @ t) (length (w @ t)) = length w"
proof -
  have "\<And>i. length w \<le> i \<Longrightarrow> i < length w + length t \<Longrightarrow> is_ws ((w @ t) ! i)"
    using assms(3) by (simp add: nth_append)
  then have "trim_trailing_whitespace (w @ t) (length w + length t)
               = trim_trailing_whitespace (w @ t) (length w)"
    by (rule trim_suffix)
  moreover have "(w @ t) ! (length w - 1) = last w"
    using assms(1) by (simp add: nth_append last_conv_nth)
  ultimately show ?thesis using trim_keep [of "length w" "w @ t"] assms(1,2) by simp
qed

lemma find_opening_quote_zero:
  "(\<And>j. 1 \<le> j \<Longrightarrow> j \<le> k \<Longrightarrow> \<not> (buf ! j = DQ \<and> count_backslashes buf j mod 2 = 0)) \<Longrightarrow>
   find_opening_quote buf k = 0"
proof (induction k)
  case 0
  then show ?case by simp
next
  case (Suc k)
  have "\<not> (buf ! Suc k = DQ \<and> count_backslashes buf (Suc k) mod 2 = 0)"
    using Suc.prems [of "Suc k"] by simp
  then have "find_opening_quote buf (Suc k) = find_opening_quote buf k"
    by (auto simp del: count_backslashes.simps)
  then show ?case using Suc by simp
qed

lemma remove_incomplete_kvp_keep:
  assumes "0 < n" "\<not> is_ws (buf ! (n - 1))" "buf ! (n - 1) \<noteq> CHR '',''" "buf ! (n - 1) \<noteq> CHR '':''"
    and "buf ! (n - 1) = DQ \<Longrightarrow> 2 \<le> n \<and> find_opening_quote buf (n - 2) = 0 \<and> buf ! 0 = DQ"
  shows "remove_incomplete_kvp buf n = n"
proof -
  have t: "trim_trailing_whitespace buf n = n" using assms(1,2) by (rule trim_keep)
  have 1: "kvp_trailing_comma buf n = n" using assms(3) by (simp add: kvp_trailing_comma_def)
  have 2: "kvp_trailing_colon buf n = n" using assms(4) by (simp add: kvp_trailing_colon_def)
  have 3: "kvp_trailing_string buf n = n"
  proof (cases "buf ! (n - 1) = DQ")
    case False
    then show ?thesis by (simp add: kvp_trailing_string_def)
  next
    case True
    from assms(5) [OF True] have n2: "2 \<le> n" and f: "find_opening_quote buf (n - 2) = 0"
      and b0: "buf ! 0 = DQ" by auto
    have "n - 1 - 1 = n - 2" by simp
    then show ?thesis using True n2 f b0 assms(1)
      by (simp add: kvp_trailing_string_def Let_def)
  qed
  show ?thesis by (simp add: remove_incomplete_kvp_def t 1 2 3)
qed

lemma repair_tail_keep:
  assumes "\<not> rs_in_string s" "rs_stack s = []"
    and "n = trim_trailing_whitespace (rs_out s) (length (rs_out s))"
    and "0 < n" "rs_out s ! (n - 1) \<noteq> CHR '',''"
    and "remove_incomplete_kvp (rs_out s) n = n"
  shows "repair_tail s output_capacity = remove_trailing_commas (take n (rs_out s)) output_capacity"
  using assms by (simp add: repair_tail_def Let_def)

lemma repair_stages:
  assumes "rest = dropWhile is_ws input" "rest \<noteq> []"
    and "em = nat (if (if max_depth < 1 then 1 else max_depth) < 256
                   then (if max_depth < 1 then 1 else max_depth) else 256)"
    and "em + 2 < output_capacity"
  shows "conduit_json_repair input output_capacity max_depth =
           Inr (repair_tail
                  (copy_loop rest (output_capacity - (em + 2)) em
                     \<lparr>rs_out = [], rs_in_string = False, rs_escape_next = False, rs_stack = []\<rparr>)
                  output_capacity)"
proof -
  have "\<not> output_capacity < 3" using assms(4) by simp
  then show ?thesis
    using assms
    by (auto simp: conduit_json_repair_def Let_def is_ws_lambda simp del: copy_loop.simps)
qed

lemma trimmed_parts:
  assumes "rest = dropWhile is_ws input" "rest \<noteq> []"
  shows "\<exists>t. rest = trim_ws input @ t \<and> (\<forall>c\<in>set t. is_ws c) \<and> trim_ws input \<noteq> [] \<and>
             \<not> is_ws (last (trim_ws input)) \<and> \<not> is_ws (hd (trim_ws input))"
proof -
  let ?w = "rev (dropWhile is_ws (rev rest))"
  let ?t = "rev (takeWhile is_ws (rev rest))"
  have w: "trim_ws input = ?w" using assms(1) by (simp add: trim_ws_def)
  have "rev rest = takeWhile is_ws (rev rest) @ dropWhile is_ws (rev rest)" by simp
  then have "rev (rev rest) = rev (takeWhile is_ws (rev rest) @ dropWhile is_ws (rev rest))"
    by simp
  then have split: "rest = ?w @ ?t" by (simp only: rev_rev_ident rev_append)
  have ws: "\<forall>c\<in>set ?t. is_ws c" by (auto dest: set_takeWhileD)
  have h: "\<not> is_ws (hd rest)" using assms by (simp add: hd_dropWhile)
  have ne: "dropWhile is_ws (rev rest) \<noteq> []"
  proof
    assume "dropWhile is_ws (rev rest) = []"
    then have "\<forall>c\<in>set (rev rest). is_ws c" by (simp add: dropWhile_eq_Nil_conv)
    then have "is_ws (hd rest)" using assms(2) by (cases rest) auto
    then show False using h by simp
  qed
  have l: "\<not> is_ws (last ?w)" using ne by (simp add: last_rev hd_dropWhile)
  have "hd ?w = hd rest" using split ne by (metis hd_append2 rev_is_Nil_conv)
  then have hw: "\<not> is_ws (hd ?w)" using h by simp
  show ?thesis using w split ws ne l hw by (intro exI [of _ ?t]) simp
qed

lemma top_string_shape:
  assumes run: "json_run (JValue, []) (xs0 @ [DQ]) = Some s1" and fin: "json_final s1"
    and hd: "\<not> is_ws (hd (xs0 @ [DQ]))"
  shows "\<exists>xs. xs0 = DQ # xs \<and> json_run (JStr False, []) xs = Some (JStr False, [])"
proof -
  from run obtain m0 st0 where
    0: "json_run (JValue, []) xs0 = Some (m0, st0)" and 1: "json_step (m0, st0) DQ = Some s1"
    by (auto simp: json_run_append split: option.splits)
  have lit0: "lit_ok m0" using lit_ok_run [OF 0] by simp
  obtain m1 st1 where s1: "s1 = (m1, st1)" by (cases s1)
  have "m0 = JStr False \<and> st0 = []"
    using last_byte_of_valid [OF 1 [unfolded s1] fin [unfolded s1] lit0] by simp
  then have 0: "json_run (JValue, []) xs0 = Some (JStr False, [])" using 0 by simp
  then obtain c0 xs where xs0: "xs0 = c0 # xs" by (cases xs0) auto
  then obtain m2 st2 where 2: "json_step (JValue, []) c0 = Some (m2, st2)"
    and 3: "json_run (m2, st2) xs = Some (JStr False, [])"
    using 0 by (cases "json_step (JValue, []) c0") auto
  have nws: "\<not> is_ws c0" using hd xs0 by simp
  from first_byte_of_value [OF 2 nws] show ?thesis
  proof
    assume "c0 = DQ \<and> m2 = JStr False \<and> st2 = []"
    then show ?thesis using xs0 3 by simp
  next
    assume a: "c0 \<noteq> DQ \<and> top_done (m2, st2)"
    have "lit_ok m2" using lit_ok_step [OF 2] by simp
    then have "top_done (JStr False, [])" using top_done_run [OF 3] a by simp
    then show ?thesis by simp
  qed
qed

lemma top_string_quotes:
  assumes run: "json_run (JStr False, []) xs = Some (JStr False, [])"
    and j: "1 \<le> j" "j \<le> length xs"
  shows "\<not> ((DQ # xs @ [DQ] @ t) ! j = DQ \<and> count_backslashes (DQ # xs @ [DQ] @ t) j mod 2 = 0)"
proof
  let ?buf = "DQ # xs @ [DQ] @ t"
  assume a: "?buf ! j = DQ \<and> count_backslashes ?buf j mod 2 = 0"
  obtain i where i: "j = Suc i" using j(1) by (cases j) auto
  have il: "i < length xs" using j(2) i by simp
  have q: "xs ! i = DQ" using a i il by (simp add: nth_append)
  have "xs = take i xs @ DQ # drop (Suc i) xs" using il q by (metis id_take_nth_drop)
  then have "json_run (JStr False, []) (take i xs @ DQ # drop (Suc i) xs) = Some (JStr False, [])"
    using run by simp
  then have odd: "odd (trailing_bs (take i xs))" by (rule interior_quote_escaped) simp
  have "take j ?buf = DQ # take i xs" using i il by simp
  then have "count_backslashes ?buf j = trailing_bs (DQ # take i xs)"
    using count_backslashes_take [of j ?buf] j(2) by simp
  also have "\<dots> = trailing_bs (take i xs)" by (simp add: trailing_bs_Cons)
  finally show False using a odd by presburger
qed

lemma repair_valid_identity:
  assumes valid: "is_valid_json input"
    and cap: "length (dropWhile is_ws input) + nat (min (max max_depth 1) 256) + 2
                \<le> output_capacity"
  shows "conduit_json_repair input output_capacity max_depth = Inr (trim_ws input)"
proof -
  define rest where "rest = dropWhile is_ws input"
  define w where "w = trim_ws input"
  define em where "em = nat (if (if max_depth < 1 then 1 else max_depth) < 256
                   then (if max_depth < 1 then 1 else max_depth) else 256)"
  have em: "em = nat (min (max max_depth 1) 256)" by (simp add: em_def min_def max_def)
  from valid obtain mf stf where
    run0: "json_run (JValue, []) input = Some (mf, stf)" and fin: "json_final (mf, stf)"
    by (auto simp: is_valid_json_def split: option.splits)
  have run: "json_run (JValue, []) rest = Some (mf, stf)"
    using run0 by (simp add: rest_def json_run_leading_ws)
  have rest_ne: "rest \<noteq> []"
  proof
    assume "rest = []"
    then have "(mf, stf) = (JValue, [])" using run by simp
    then show False using fin by simp
  qed
  from trimmed_parts [OF rest_def rest_ne] obtain t where
    split: "rest = w @ t" and ws: "\<forall>c\<in>set t. is_ws c" and w_ne: "w \<noteq> []"
    and lastw: "\<not> is_ws (last w)" and hdw: "\<not> is_ws (hd w)"
    by (auto simp: w_def)
  from run obtain s1 where
    runw: "json_run (JValue, []) w = Some s1" and runt: "json_run s1 t = Some (mf, stf)"
    by (auto simp: split json_run_append split: option.splits)
  have lit1: "lit_ok (fst s1)" using lit_ok_run [OF runw] by simp
  have fin1: "json_final s1" using final_before_ws_run [OF runt ws fin lit1] .
  obtain xs0 c where wc: "w = xs0 @ [c]" using w_ne by (metis rev_exhaust)
  from runw obtain m0 st0 where
    0: "json_run (JValue, []) xs0 = Some (m0, st0)" and 1: "json_step (m0, st0) c = Some s1"
    by (auto simp: wc json_run_append split: option.splits)
  obtain m1 st1 where s1: "s1 = (m1, st1)" by (cases s1)
  have lit0: "lit_ok m0" using lit_ok_run [OF 0] by simp
  have lastc: "c \<noteq> CHR '',''" "c \<noteq> CHR '':''"
    using last_byte_of_valid [OF 1 [unfolded s1] fin1 [unfolded s1] lit0] by simp_all
  have cws: "\<not> is_ws c" using lastw wc by simp

  \<comment> \<open>the first pass copies the input and ends outside strings with no bracket open\<close>
  let ?init = "\<lparr>rs_out = [], rs_in_string = False, rs_escape_next = False, rs_stack = []\<rparr>"
  let ?cfc = "output_capacity - (em + 2)"
  let ?s = "copy_loop rest ?cfc em ?init"
  have "0 < length rest" using rest_ne by simp
  moreover have "length rest + em + 2 \<le> output_capacity"
    using cap by (simp add: rest_def [symmetric] em [symmetric])
  ultimately have cap': "em + 2 < output_capacity" "length rest \<le> ?cfc"
    by linarith+
  have copy: "rs_out ?s = rs_out ?init @ rest \<and> rs_in_string ?s = str_mode mf \<and>
        rs_escape_next ?s = esc_mode mf \<and> length (rs_stack ?s) \<le> length stf"
    by (rule copy_loop_valid [OF run]) (use cap' in simp_all)
  have stf: "stf = []" and mf: "final_mode mf"
    using fin by (simp_all add: json_final_iff del: json_final.simps)
  have nstr: "\<not> str_mode mf" using mf by (cases mf) auto
  have out: "rs_out ?s = rest" and ins: "\<not> rs_in_string ?s" and stk: "rs_stack ?s = []"
    using copy stf nstr by simp_all

  \<comment> \<open>the fix-ups at the tail leave the trimmed text\<close>
  have n: "trim_trailing_whitespace rest (length rest) = length w"
    unfolding split using trim_append_ws [OF w_ne lastw ws] .
  have lw: "0 < length w" using w_ne by simp
  have nth_last: "rest ! (length w - 1) = c" by (simp add: split wc nth_append)
  have kvp: "remove_incomplete_kvp rest (length w) = length w"
  proof (rule remove_incomplete_kvp_keep [OF lw])
    show "\<not> is_ws (rest ! (length w - 1))" using nth_last cws by simp
    show "rest ! (length w - 1) \<noteq> CHR '',''" using nth_last lastc by simp
    show "rest ! (length w - 1) \<noteq> CHR '':''" using nth_last lastc by simp
    assume "rest ! (length w - 1) = DQ"
    then have c: "c = DQ" using nth_last by simp
    from top_string_shape [OF runw [unfolded wc c] fin1] hdw obtain xs where
      xs0: "xs0 = DQ # xs" and sr: "json_run (JStr False, []) xs = Some (JStr False, [])"
      by (auto simp: wc c)
    have buf: "rest = DQ # xs @ [DQ] @ t" by (simp add: split wc xs0 c)
    have "find_opening_quote rest (length xs) = 0"
      by (rule find_opening_quote_zero) (use top_string_quotes [OF sr] buf in simp)
    moreover have "length w - 2 = length xs" by (simp add: wc xs0)
    ultimately show "2 \<le> length w \<and> find_opening_quote rest (length w - 2) = 0 \<and> rest ! 0 = DQ"
      by (simp add: buf wc xs0)
  qed
  have tail: "repair_tail ?s output_capacity = remove_trailing_commas w output_capacity"
  proof -
    have a: "length w = trim_trailing_whitespace (rs_out ?s) (length (rs_out ?s))"
      unfolding out n ..
    have b: "rs_out ?s ! (length w - 1) \<noteq> CHR '',''"
      unfolding out using nth_last lastc by simp
    have c: "remove_incomplete_kvp (rs_out ?s) (length w) = length w"
      unfolding out by (rule kvp)
    have "repair_tail ?s output_capacity =
            remove_trailing_commas (take (length w) (rs_out ?s)) output_capacity"
      by (rule repair_tail_keep [OF ins stk a lw b c])
    moreover have "take (length w) rest = w" by (simp add: split)
    then have "take (length w) (rs_out ?s) = w" by (simp only: out)
    ultimately show ?thesis by simp
  qed

  \<comment> \<open>the final pass finds no comma to drop\<close>
  have "remove_trailing_commas_loop w 0 output_capacity False False = w"
    by (rule remove_trailing_commas_valid [OF runw]) (use cap' split in simp_all)
  then have rtc: "remove_trailing_commas w output_capacity = w"
    by (simp add: remove_trailing_commas_def)
  show ?thesis
    using repair_stages [OF rest_def rest_ne em_def cap'(1)] tail rtc by (simp add: w_def)
qed





text \<open>
  Claim C6. For every input that is valid JSON, and every output capacity that holds the
  input from its first non-blank byte on, the reserved closers and the final \<open>NUL\<close>,
  \<open>conduit_json_repair\<close> succeeds and writes the input with the whitespace at both ends
  trimmed; the return value is the length of that.
\<close>

theorem repair_identity_on_valid:
  assumes "is_valid_json input"
    and "length (dropWhile is_ws input) + nat (min (max max_depth 1) 256) + 2 \<le> output_capacity"
  shows "conduit_json_repair input output_capacity max_depth = Inr (trim_ws input) \<and>
         repair_return_value (conduit_json_repair input output_capacity max_depth)
           = int (length (trim_ws input))"
  using repair_valid_identity [OF assms] by (simp add: repair_return_value_def)

theorem repair_identity_on_valid_witness:
  \<open>is_valid_json ''  {"a": [1, -2.5e3, true], "b": "x"} '' \<and>
   length (dropWhile is_ws ''  {"a": [1, -2.5e3, true], "b": "x"} '')
     + nat (min (max 64 1) 256) + 2 \<le> (128::nat) \<and>
   conduit_json_repair ''  {"a": [1, -2.5e3, true], "b": "x"} '' 128 64
     = Inr ''{"a": [1, -2.5e3, true], "b": "x"}'' \<and>
   repair_return_value (conduit_json_repair ''  {"a": [1, -2.5e3, true], "b": "x"} '' 128 64)
     = 34\<close>
proof -
  let ?inp = \<open>''  {"a": [1, -2.5e3, true], "b": "x"} ''\<close>
  have v: "is_valid_json ?inp" by code_simp
  have c: "length (dropWhile is_ws ?inp) + nat (min (max 64 1) 256) + 2 \<le> (128::nat)"
    by code_simp
  have t: \<open>trim_ws ?inp = ''{"a": [1, -2.5e3, true], "b": "x"}''\<close> by code_simp
  have l: \<open>int (length ''{"a": [1, -2.5e3, true], "b": "x"}'') = 34\<close> by simp
  from repair_identity_on_valid [OF v c] v c show ?thesis
    unfolding t l by blast
qed




section \<open>JSON completer: properties\<close>





































end
